theory Spec2Isabelle
  imports Main "HOL-Library.Word" "HOL-Library.AList"
begin

unbundle bit_operations_syntax

section \<open>The xkcd index: data model\<close>

text \<open>
  The program has two Go files: the package \<open>xkcd\<close> (download, in-memory inverted index,
  storage in BoltDB) and \<open>xkcd_ops.go\<close> (update, view and search). Go's \<open>int\<close> is modelled
  as \<open>int\<close>; the only place where its 64-bit width is visible is the increment of the
  download loop, which wraps (\<open>go_inc\<close>). The conversion \<open>uint16(i)\<close> keeps the low 16 bits.
  A Go map is an association list with distinct keys (\<open>AList.update\<close>, \<open>map_of\<close>); a BoltDB
  bucket likewise. A panic and \<open>log.Fatal\<close> are values of type \<open>abort\<close>.
\<close>

type_synonym byte = "8 word"

datatype abort = NilPointerDereference | IndexOutOfRange | LogFatal

datatype err = OpenFileFailed | RequestFailed | BadStatus | WriteFailed
  | StoreIndexMapFailed | StoreMapDataFailed | LogIndexVarFailed

datatype outcome = Nil | Err err | Aborted abort

record LogData =
  Month :: string
  Num :: "32 word"
  Link :: string
  Year :: string
  News :: string
  SafeTitle :: string
  Transcript :: string
  Alt :: string
  Img :: string
  Title :: string
  Day :: string

subsection \<open>Byte encodings (Itob, Btoi, Istobs, Bstois)\<close>

definition uint16 :: "int \<Rightarrow> 16 word" where
  "uint16 i = word_of_int i"

text \<open>\<open>binary.BigEndian.PutUint16\<close> on a slice of two bytes.\<close>

definition PutUint16 :: "16 word \<Rightarrow> byte list" where
  "PutUint16 v = [ucast (drop_bit 8 v), ucast v]"

text \<open>\<open>binary.BigEndian.Uint16\<close> reads \<open>b[0]\<close> and \<open>b[1]\<close>; a shorter slice panics.\<close>

fun Uint16 :: "byte list \<Rightarrow> abort + 16 word" where
  "Uint16 (b0 # b1 # _) = Inr (ucast b1 OR push_bit 8 (ucast b0))"
| "Uint16 _ = Inl IndexOutOfRange"

definition Itob :: "int \<Rightarrow> byte list" where
  "Itob i = PutUint16 (uint16 i)"

definition Btoi :: "byte list \<Rightarrow> abort + int" where
  "Btoi b = (case Uint16 b of Inl a \<Rightarrow> Inl a | Inr w \<Rightarrow> Inr (uint w))"

text \<open>The loop of \<open>Istobs\<close>: \<open>bs\<close> is the slice built so far.\<close>

fun Istobs_loop :: "byte list \<Rightarrow> int list \<Rightarrow> byte list" where
  "Istobs_loop bs [] = bs"
| "Istobs_loop bs (v # s) = Istobs_loop (bs @ PutUint16 (uint16 v)) s"

definition Istobs :: "int list \<Rightarrow> byte list" where
  "Istobs s = Istobs_loop [] s"

text \<open>
  The loop of \<open>Bstois\<close>: the second argument is \<open>bs[i:]\<close>, the first the slice \<open>is\<close> built
  so far. The loop runs while \<open>i < len(bs)\<close> in steps of two, so a single trailing byte
  reaches \<open>Uint16\<close> and panics.
\<close>

fun Bstois_loop :: "int list \<Rightarrow> byte list \<Rightarrow> abort + int list" where
  "Bstois_loop is [] = Inr is"
| "Bstois_loop is [b0] = (case Uint16 [b0] of Inl a \<Rightarrow> Inl a | Inr w \<Rightarrow> Inr (is @ [uint w]))"
| "Bstois_loop is (b0 # b1 # bs) =
     (case Uint16 (b0 # b1 # bs) of Inl a \<Rightarrow> Inl a
      | Inr w \<Rightarrow> Bstois_loop (is @ [uint w]) bs)"

definition Bstois :: "byte list \<Rightarrow> abort + int list" where
  "Bstois bs = Bstois_loop [] bs"

subsection \<open>Storage: the two BoltDB files and the text log\<close>

text \<open>
  \<open>xkcd_index.db\<close> holds the buckets \<open>main\<close> (term to encoded postings list) and
  \<open>data\<close> (encoded ID to encoded record); a bucket that was never created is \<open>None\<close>.
  \<open>log.db\<close> holds the single key \<open>index\<close> in the bucket \<open>log\<close>: the file may be missing,
  may exist without the bucket (created by \<open>bolt.Open\<close>, the transaction then failed), or
  hold the two bytes. \<open>comic_log.txt\<close> is the list of entries appended so far.
\<close>

datatype logfile = NoFile | NoBucket | Logged "byte list"

record disk =
  comic_log :: "(int \<times> LogData option) list"
  main :: "(string \<times> byte list) list option"
  data :: "(byte list \<times> byte list) list option"
  log_db :: logfile

text \<open>Before the first run: no file exists.\<close>

definition disk0 :: disk where
  "disk0 = \<lparr>comic_log = [], main = None, data = None, log_db = NoFile\<rparr>"

text \<open>\<open>b.Get(k)\<close>: a nil bucket panics, a missing key gives the nil slice.\<close>

definition bucket_Get :: "('k \<times> byte list) list option \<Rightarrow> 'k \<Rightarrow> abort + byte list" where
  "bucket_Get b k =
     (case b of None \<Rightarrow> Inl NilPointerDereference
      | Some kvs \<Rightarrow> (case map_of kvs k of None \<Rightarrow> Inr [] | Some v \<Rightarrow> Inr v))"

text \<open>\<open>tx.CreateBucketIfNotExists\<close>.\<close>

definition CreateBucketIfNotExists :: "('k \<times> byte list) list option \<Rightarrow> ('k \<times> byte list) list" where
  "CreateBucketIfNotExists b = (case b of None \<Rightarrow> [] | Some kvs \<Rightarrow> kvs)"

definition Get :: "('k \<times> byte list) list \<Rightarrow> 'k \<Rightarrow> byte list" where
  "Get kvs k = (case map_of kvs k of None \<Rightarrow> [] | Some v \<Rightarrow> v)"

subsection \<open>Search (xkcd\_ops.go)\<close>

record Data =
  Key :: string
  Value :: "int list"
  Len :: int

text \<open>
  \<open>intersection\<close>: \<open>checkMap\<close> is built from \<open>s1\<close>, then \<open>s2\<close> is scanned. Each round reads
  \<open>s1[len(s1)-1]\<close>, which panics when \<open>s1\<close> is empty; the scan breaks at the first value
  above it.
\<close>

definition checkMap_of :: "int list \<Rightarrow> (int \<rightharpoonup> bool)" where
  "checkMap_of s1 = fold (\<lambda>v m. m(v \<mapsto> True)) s1 Map.empty"

definition last_index :: "int list \<Rightarrow> abort + int" where
  "last_index s = (if s = [] then Inl IndexOutOfRange else Inr (last s))"

fun intersection_scan :: "int list \<Rightarrow> int list \<Rightarrow> int list \<Rightarrow> abort + int list" where
  "intersection_scan s1 c [] = Inr c"
| "intersection_scan s1 c (v # s2) =
     (case last_index s1 of Inl a \<Rightarrow> Inl a
      | Inr m \<Rightarrow>
          if v > m then Inr c
          else if checkMap_of s1 v \<noteq> None then intersection_scan s1 (c @ [v]) s2
          else intersection_scan s1 c s2)"

definition intersection :: "int list \<Rightarrow> int list \<Rightarrow> abort + int list" where
  "intersection s1 s2 = intersection_scan s1 [] s2"

text \<open>\<open>strings.Split(text, " ")\<close> and \<open>strings.TrimSpace\<close> (on ASCII white space).\<close>

fun Split_scan :: "string \<Rightarrow> string \<Rightarrow> string list" where
  "Split_scan cur [] = [rev cur]"
| "Split_scan cur (c # cs) =
     (if c = CHR '' '' then rev cur # Split_scan [] cs else Split_scan (c # cur) cs)"

definition Split :: "string \<Rightarrow> string list" where
  "Split text = Split_scan [] text"

definition isSpace :: "char \<Rightarrow> bool" where
  "isSpace c = (c \<in> set [CHR 0x09, CHR 0x0A, CHR 0x0B, CHR 0x0C, CHR 0x0D, CHR '' ''])"

definition TrimSpace :: "string \<Rightarrow> string" where
  "TrimSpace s = rev (dropWhile isSpace (rev (dropWhile isSpace s)))"

text \<open>
  \<open>getRefs\<close>: for every element of the query the postings of the trimmed term are read
  from \<open>main\<close> and decoded; the closure passed to \<open>db.View\<close> returns nil, so no error is
  returned, and a panic inside it is not recovered.
\<close>

fun getRefs_loop :: "(string \<times> byte list) list option \<Rightarrow> string list \<Rightarrow>
    (string \<times> int list) list \<Rightarrow> abort + (string \<times> int list) list" where
  "getRefs_loop b [] resultMap = Inr resultMap"
| "getRefs_loop b (v # q) resultMap =
     (case bucket_Get b (TrimSpace v) of Inl a \<Rightarrow> Inl a
      | Inr bs \<Rightarrow>
          (case Bstois bs of Inl a \<Rightarrow> Inl a
           | Inr result \<Rightarrow> getRefs_loop b q (AList.update (TrimSpace v) result resultMap)))"

definition getRefs :: "(string \<times> byte list) list option \<Rightarrow> string list \<Rightarrow>
    abort + (string \<times> int list) list" where
  "getRefs b q = getRefs_loop b q []"

text \<open>
  \<open>sortMap\<close>: the entries of the map, sorted by \<open>Len\<close>. Go leaves the order of a map range
  and of equal elements in \<open>sort.Slice\<close> open; the model keeps the order of the association
  list among equal lengths.
\<close>

definition sortMap :: "(string \<times> int list) list \<Rightarrow> Data list" where
  "sortMap m = sort_key Len (map (\<lambda>(k, v). \<lparr>Key = k, Value = v, Len = int (length v)\<rparr>) m)"

text \<open>
  \<open>returnData\<close>: each ID is looked up in \<open>data\<close> and decoded; \<open>decodeProto\<close> ends the
  process with \<open>log.Fatalf\<close> when the bytes do not decode (\<open>None\<close>).
\<close>

fun returnData_loop :: "(byte list \<Rightarrow> LogData option) \<Rightarrow> (byte list \<times> byte list) list option \<Rightarrow>
    LogData list \<Rightarrow> int list \<Rightarrow> abort + LogData list" where
  "returnData_loop decodeProto b results [] = Inr results"
| "returnData_loop decodeProto b results (v # c) =
     (case bucket_Get b (Itob v) of Inl a \<Rightarrow> Inl a
      | Inr pb \<Rightarrow>
          (case decodeProto pb of None \<Rightarrow> Inl LogFatal
           | Some entry \<Rightarrow> returnData_loop decodeProto b (results @ [entry]) c))"

definition returnData :: "(byte list \<Rightarrow> LogData option) \<Rightarrow> (byte list \<times> byte list) list option \<Rightarrow>
    int list \<Rightarrow> abort + LogData list" where
  "returnData decodeProto b c = returnData_loop decodeProto b [] c"

text \<open>The fold of \<open>intersection\<close> over \<open>sorted[2:]\<close>.\<close>

fun intersection_rest :: "int list \<Rightarrow> Data list \<Rightarrow> abort + int list" where
  "intersection_rest common [] = Inr common"
| "intersection_rest common (v # rest) =
     (case intersection common (Value v) of Inl a \<Rightarrow> Inl a
      | Inr common' \<Rightarrow> intersection_rest common' rest)"

text \<open>The IDs whose records \<open>searchIndex\<close> prints, for the line \<open>text\<close> read from the input.\<close>

definition search_ids :: "(string \<times> byte list) list option \<Rightarrow> string \<Rightarrow> abort + int list" where
  "search_ids b text =
     (case getRefs b (Split text) of Inl a \<Rightarrow> Inl a
      | Inr resultMap \<Rightarrow>
          if length resultMap = 1 then Inr (concat (map snd resultMap))
          else (case sortMap resultMap of
                  s1 # s2 # rest \<Rightarrow>
                    (case intersection (Value s1) (Value s2) of Inl a \<Rightarrow> Inl a
                     | Inr common \<Rightarrow> intersection_rest common rest)
                | _ \<Rightarrow> Inl IndexOutOfRange))"

definition searchIndex :: "(byte list \<Rightarrow> LogData option) \<Rightarrow> disk \<Rightarrow> string \<Rightarrow> abort + LogData list" where
  "searchIndex decodeProto d text =
     (case search_ids (main d) text of Inl a \<Rightarrow> Inl a
      | Inr ids \<Rightarrow> returnData decodeProto (data d) ids)"

subsection \<open>Building the index (package xkcd)\<close>

text \<open>
  What one run of the program meets outside itself: the answers of \<open>http.Get\<close> (the
  response pointer, and whether \<open>err\<close> is non-nil), the words that \<open>bufio.ScanWords\<close>
  finds in \<open>formatEntry(respInfo)\<close>, what \<open>json.Unmarshal\<close> leaves in the \<open>*LogData\<close>
  pointer and whether it returns an error, \<open>proto.Marshal\<close>, and which calls on files and
  databases fail.
\<close>

datatype 'b response = Response (StatusCode: int) (Body: 'b)

datatype bolt_fault = NoFault | OpenFault | UpdateFault

record 'b env =
  OpenFile_err :: bool
  http_Get :: "int \<Rightarrow> 'b response option \<times> bool"
  scan_words :: "'b \<Rightarrow> string list"
  json_Unmarshal :: "'b \<Rightarrow> LogData option \<times> bool"
  proto_Marshal :: "LogData \<Rightarrow> byte list option"
  index_fault :: bolt_fault
  data_fault :: bolt_fault
  log_fault :: bolt_fault

text \<open>The package variables \<open>Index\<close>, \<open>URL\<close>, \<open>IndexMap\<close> and \<open>DataMap\<close>, and the files.\<close>

record proc =
  Index :: int
  URL :: string
  IndexMap :: "(string \<times> int list) list"
  DataMap :: "(int \<times> LogData) list"
  files :: disk

text \<open>\<open>i++\<close> on a 64-bit \<open>int\<close> wraps from the largest value to the smallest.\<close>

definition go_inc :: "int \<Rightarrow> int" where
  "go_inc i = (if 9223372036854775807 \<le> i then - 9223372036854775808 else i + 1)"

fun digits :: "nat \<Rightarrow> string" where
  "digits n = (if n < 10 then [''0123456789'' ! n] else digits (n div 10) @ [''0123456789'' ! (n mod 10)])"

declare digits.simps [simp del]

definition Itoa :: "int \<Rightarrow> string" where
  "Itoa i = (if i < 0 then CHR ''-'' # digits (nat (- i)) else digits (nat i))"

definition XKCDURL :: string where
  "XKCDURL = ''https://xkcd.com/''"

definition appendIfUnique :: "int list \<Rightarrow> int \<Rightarrow> int list" where
  "appendIfUnique s i =
     (let imap = fold (\<lambda>v m. m(v \<mapsto> True)) s Map.empty
      in if imap i \<noteq> Some True then s @ [i] else s)"

text \<open>\<open>IndexMap[t]\<close>: a missing key reads as the nil slice.\<close>

definition slice_at :: "(string \<times> int list) list \<Rightarrow> string \<Rightarrow> int list" where
  "slice_at m t = (case map_of m t of None \<Rightarrow> [] | Some s \<Rightarrow> s)"

definition mapTerms :: "string list \<Rightarrow> proc \<Rightarrow> proc" where
  "mapTerms ws p =
     p\<lparr>IndexMap := fold (\<lambda>t m. AList.update t (appendIfUnique (slice_at m t) (Index p)) m)
          ws (IndexMap p)\<rparr>"

text \<open>\<open>mapData\<close> writes through the pointer that \<open>json.Unmarshal\<close> left: nil panics.\<close>

definition mapData :: "'b env \<Rightarrow> 'b \<Rightarrow> int \<Rightarrow> proc \<Rightarrow> abort + proc" where
  "mapData env respInfo i p =
     (case fst (json_Unmarshal env respInfo) of
        None \<Rightarrow> Inl NilPointerDereference
      | Some dataMapFields \<Rightarrow>
          Inr (p\<lparr>DataMap := AList.update i (dataMapFields\<lparr>Link := URL p\<rparr>) (DataMap p)\<rparr>))"

text \<open>\<open>writeOutput\<close>: \<open>True\<close> when it returns an error.\<close>

definition writeOutput :: "'b env \<Rightarrow> 'b \<Rightarrow> proc \<Rightarrow> bool \<times> proc" where
  "writeOutput env respInfo p =
     (case json_Unmarshal env respInfo of
        (comicData, True) \<Rightarrow> (True, p)
      | (comicData, False) \<Rightarrow>
          (False, p\<lparr>files := (files p)\<lparr>comic_log :=
                     comic_log (files p) @ [(Index p, comicData)]\<rparr>\<rparr>))"

text \<open>
  The loop of \<open>GetInfo\<close>, \<open>for i := Index; i > 0; i++\<close>. It returns \<open>Nil\<close> when the loop is
  left by its condition or by \<open>break\<close>.
\<close>

function GetInfo_loop :: "'b env \<Rightarrow> int \<Rightarrow> proc \<Rightarrow> outcome \<times> proc" where
  "GetInfo_loop env i p =
     (if \<not> 0 < i then (Nil, p)
      else if i = 404 then GetInfo_loop env (go_inc i) (p\<lparr>Index := go_inc (Index p)\<rparr>)
      else
        (let p1 = p\<lparr>URL := XKCDURL @ Itoa i\<rparr> in
         case http_Get env i of
           (None, err) \<Rightarrow> (Aborted NilPointerDereference, p1)
         | (Some resp, True) \<Rightarrow> (Err RequestFailed, p1)
         | (Some resp, False) \<Rightarrow>
             if StatusCode resp \<noteq> 200 \<and> StatusCode resp \<noteq> 404 then (Err BadStatus, p1)
             else if StatusCode resp = 404 then (Nil, p1)
             else
               (let p2 = mapTerms (scan_words env (Body resp)) p1 in
                case mapData env (Body resp) (Index p2) p2 of
                  Inl a \<Rightarrow> (Aborted a, p2)
                | Inr p3 \<Rightarrow>
                    (case writeOutput env (Body resp) p3 of
                       (True, p4) \<Rightarrow> (Err WriteFailed, p4)
                     | (False, p4) \<Rightarrow>
                         GetInfo_loop env (go_inc i) (p4\<lparr>Index := go_inc (Index p4)\<rparr>)))))"
  by pat_completeness auto
termination
  by (relation "measure (\<lambda>(env, i, p). if 0 < i then Suc (nat (9223372036854775808 - i)) else 0)")
    (auto simp: go_inc_def)

declare GetInfo_loop.simps [simp del]

text \<open>The transaction of \<open>storeIndexMap\<close>, over the entries of the map.\<close>

fun storeIndexMap_tx :: "(string \<times> int list) list \<Rightarrow> (string \<times> byte list) list \<Rightarrow>
    (string \<times> byte list) list" where
  "storeIndexMap_tx [] b = b"
| "storeIndexMap_tx ((k, v) # m) b = storeIndexMap_tx m (AList.update k (Get b k @ Istobs v) b)"

definition storeIndexMap :: "bolt_fault \<Rightarrow> (string \<times> int list) list \<Rightarrow> disk \<Rightarrow> outcome \<times> disk" where
  "storeIndexMap fault m d =
     (case fault of
        OpenFault \<Rightarrow> (Aborted LogFatal, d)
      | UpdateFault \<Rightarrow> (Err StoreIndexMapFailed, d)
      | NoFault \<Rightarrow>
          (Nil, d\<lparr>main := Some (storeIndexMap_tx m (CreateBucketIfNotExists (main d)))\<rparr>))"

fun storeMapData_tx :: "(LogData \<Rightarrow> byte list option) \<Rightarrow> (int \<times> LogData) list \<Rightarrow>
    (byte list \<times> byte list) list \<Rightarrow> (byte list \<times> byte list) list option" where
  "storeMapData_tx convToProto [] b = Some b"
| "storeMapData_tx convToProto ((k, v) # m) b =
     (case convToProto v of None \<Rightarrow> None
      | Some pb \<Rightarrow> storeMapData_tx convToProto m (AList.update (Itob k) pb b))"

definition storeMapData :: "bolt_fault \<Rightarrow> (LogData \<Rightarrow> byte list option) \<Rightarrow> (int \<times> LogData) list \<Rightarrow>
    disk \<Rightarrow> outcome \<times> disk" where
  "storeMapData fault convToProto m d =
     (case fault of
        OpenFault \<Rightarrow> (Aborted LogFatal, d)
      | UpdateFault \<Rightarrow> (Err StoreMapDataFailed, d)
      | NoFault \<Rightarrow>
          (case storeMapData_tx convToProto m (CreateBucketIfNotExists (data d)) of
             None \<Rightarrow> (Aborted LogFatal, d)
           | Some b \<Rightarrow> (Nil, d\<lparr>data := Some b\<rparr>)))"

definition logIndexVar :: "bolt_fault \<Rightarrow> int \<Rightarrow> disk \<Rightarrow> outcome \<times> disk" where
  "logIndexVar fault i d =
     (case fault of
        OpenFault \<Rightarrow> (Aborted LogFatal, d)
      | UpdateFault \<Rightarrow>
          (Err LogIndexVarFailed, d\<lparr>log_db := (case log_db d of NoFile \<Rightarrow> NoBucket | l \<Rightarrow> l)\<rparr>)
      | NoFault \<Rightarrow> (Nil, d\<lparr>log_db := Logged (Itob i)\<rparr>))"

text \<open>The end of \<open>GetInfo\<close>: the three stores, each its own transaction.\<close>

definition flush :: "'b env \<Rightarrow> proc \<Rightarrow> outcome \<times> proc" where
  "flush env p =
     (case storeIndexMap (index_fault env) (IndexMap p) (files p) of
        (Nil, d1) \<Rightarrow>
          (case storeMapData (data_fault env) (proto_Marshal env) (DataMap p) d1 of
             (Nil, d2) \<Rightarrow>
               (case logIndexVar (log_fault env) (Index p) d2 of
                  (r, d3) \<Rightarrow> (r, p\<lparr>files := d3\<rparr>))
           | (r, d2) \<Rightarrow> (r, p\<lparr>files := d2\<rparr>))
      | (r, d1) \<Rightarrow> (r, p\<lparr>files := d1\<rparr>))"

definition GetInfo :: "'b env \<Rightarrow> proc \<Rightarrow> outcome \<times> proc" where
  "GetInfo env p =
     (if OpenFile_err env then (Err OpenFileFailed, p)
      else (case GetInfo_loop env (Index p) p of
              (Nil, p') \<Rightarrow> flush env p'
            | (r, p') \<Rightarrow> (r, p')))"

text \<open>\<open>GetIndex\<close> with \<open>viewLogDb\<close>.\<close>

definition GetIndex :: "disk \<Rightarrow> abort + int" where
  "GetIndex d =
     (case log_db d of
        NoFile \<Rightarrow> Inr 1
      | NoBucket \<Rightarrow> Inl NilPointerDereference
      | Logged b \<Rightarrow> Btoi b)"

text \<open>\<open>updateIndex\<close> in a fresh process: the package variables start at their zero values.\<close>

definition updateIndex :: "'b env \<Rightarrow> disk \<Rightarrow> outcome \<times> disk" where
  "updateIndex env d =
     (case GetIndex d of
        Inl a \<Rightarrow> (Aborted a, d)
      | Inr c \<Rightarrow>
          (case GetInfo env \<lparr>Index = c, URL = [], IndexMap = [], DataMap = [], files = d\<rparr> of
             (r, p) \<Rightarrow> (r, files p)))"

text \<open>
  One round of the loop on a response with status 200 whose body decodes to \<open>d\<close> without
  error: \<open>mapTerms\<close>, \<open>mapData\<close>, \<open>writeOutput\<close> and \<open>Index++\<close>.
\<close>

definition process :: "'b env \<Rightarrow> 'b \<Rightarrow> int \<Rightarrow> LogData \<Rightarrow> proc \<Rightarrow> proc" where
  "process env body i d p =
     (let p2 = mapTerms (scan_words env body) (p\<lparr>URL := XKCDURL @ Itoa i\<rparr>)
      in p2\<lparr>DataMap := AList.update (Index p2) (d\<lparr>Link := URL p2\<rparr>) (DataMap p2),
            files := (files p2)\<lparr>comic_log := comic_log (files p2) @ [(Index p2, Some d)]\<rparr>,
            Index := go_inc (Index p2)\<rparr>)"

subsection \<open>Sources and runs\<close>

text \<open>
  A source serves ID \<open>j\<close> when the request succeeds with status 200 and the body decodes
  without error; its frontier is an ID, other than 404, that it answers with status 404.
  \<open>no_faults\<close>: every file and database call of the run succeeds.
\<close>

definition served :: "'b env \<Rightarrow> int \<Rightarrow> bool" where
  "served env j =
     (case http_Get env j of
        (None, e) \<Rightarrow> False
      | (Some resp, e) \<Rightarrow>
          \<not> e \<and> StatusCode resp = 200 \<and> fst (json_Unmarshal env (Body resp)) \<noteq> None
          \<and> \<not> snd (json_Unmarshal env (Body resp)))"

definition frontier :: "'b env \<Rightarrow> int \<Rightarrow> bool" where
  "frontier env f =
     (f \<noteq> 404 \<and>
      (case http_Get env f of (None, e) \<Rightarrow> False
       | (Some resp, e) \<Rightarrow> \<not> e \<and> StatusCode resp = 404))"

definition no_faults :: "'b env \<Rightarrow> bool" where
  "no_faults env = (\<not> OpenFile_err env \<and> index_fault env = NoFault \<and> data_fault env = NoFault
     \<and> log_fault env = NoFault \<and> (\<forall>x. proto_Marshal env x \<noteq> None))"

text \<open>
  What the loop, started at \<open>c\<close> in state \<open>p\<close>, leaves when it stops at the frontier \<open>f\<close>.
\<close>

definition loop_spec :: "int \<Rightarrow> int \<Rightarrow> proc \<Rightarrow> proc \<Rightarrow> bool" where
  "loop_spec c f p p' =
     (Index p' = f \<and> main (files p') = main (files p) \<and> data (files p') = data (files p)
      \<and> log_db (files p') = log_db (files p)
      \<and> map fst (comic_log (files p')) =
          map fst (comic_log (files p)) @ filter (\<lambda>j. j \<noteq> 404) [c..f - 1]
      \<and> fst ` set (DataMap p') = fst ` set (DataMap p) \<union> {j. c \<le> j \<and> j < f \<and> j \<noteq> 404})"

text \<open>
  The body of the loop as a function of its own: \<open>Inl\<close> leaves the loop (\<open>return\<close> or
  \<open>break\<close>), \<open>Inr\<close> goes on with the next \<open>i\<close>.
\<close>

definition GetInfo_round :: "'b env \<Rightarrow> int \<Rightarrow> proc \<Rightarrow> (outcome \<times> proc) + proc" where
  "GetInfo_round env i p =
     (if i = 404 then Inr (p\<lparr>Index := go_inc (Index p)\<rparr>)
      else
        (let p1 = p\<lparr>URL := XKCDURL @ Itoa i\<rparr> in
         case http_Get env i of
           (None, err) \<Rightarrow> Inl (Aborted NilPointerDereference, p1)
         | (Some resp, True) \<Rightarrow> Inl (Err RequestFailed, p1)
         | (Some resp, False) \<Rightarrow>
             if StatusCode resp \<noteq> 200 \<and> StatusCode resp \<noteq> 404 then Inl (Err BadStatus, p1)
             else if StatusCode resp = 404 then Inl (Nil, p1)
             else
               (let p2 = mapTerms (scan_words env (Body resp)) p1 in
                case mapData env (Body resp) (Index p2) p2 of
                  Inl a \<Rightarrow> Inl (Aborted a, p2)
                | Inr p3 \<Rightarrow>
                    (case writeOutput env (Body resp) p3 of
                       (True, p4) \<Rightarrow> Inl (Err WriteFailed, p4)
                     | (False, p4) \<Rightarrow> Inr (p4\<lparr>Index := go_inc (Index p4)\<rparr>)))))"

definition loop_measure :: "int \<Rightarrow> nat" where
  "loop_measure i = (if 0 < i then Suc (nat (9223372036854775808 - i)) else 0)"

subsection \<open>The reserved ID\<close>

text \<open>
  \<open>status_ok env j\<close>: the request for \<open>j\<close> comes back with status 200, so that the loop
  indexes \<open>j\<close>. \<open>no_alias_404\<close>: the source has no such ID, other than 404 itself, whose
  16-bit truncation is 404 (65940 is the first). \<open>free_of_404\<close>: no stored postings list
  holds 404 and no stored record has the key of 404. \<open>reachable Q\<close>: the stores reached
  from the empty disk by runs of \<open>updateIndex\<close> against sources that satisfy \<open>Q\<close>,
  whatever the outcome of each run.
\<close>

definition status_ok :: "'b env \<Rightarrow> int \<Rightarrow> bool" where
  "status_ok env j =
     (case http_Get env j of (None, e) \<Rightarrow> False
      | (Some resp, e) \<Rightarrow> \<not> e \<and> StatusCode resp = 200)"

definition no_alias_404 :: "'b env \<Rightarrow> bool" where
  "no_alias_404 env = (\<forall>j. j \<noteq> 404 \<and> j mod 65536 = 404 \<longrightarrow> \<not> status_ok env j)"

definition entry_free_of_404 :: "string \<times> byte list \<Rightarrow> bool" where
  "entry_free_of_404 e = (case Bstois (snd e) of Inl a \<Rightarrow> False | Inr l \<Rightarrow> 404 \<notin> set l)"

definition free_of_404 :: "disk \<Rightarrow> bool" where
  "free_of_404 d =
     (list_all entry_free_of_404 (CreateBucketIfNotExists (main d))
      \<and> Itob 404 \<notin> fst ` set (CreateBucketIfNotExists (data d)))"

inductive reachable :: "('b env \<Rightarrow> bool) \<Rightarrow> disk \<Rightarrow> bool" for Q where
  start: "reachable Q disk0"
| run: "reachable Q d \<Longrightarrow> Q env \<Longrightarrow> reachable Q (snd (updateIndex env d))"

definition proc_ok :: "'b env \<Rightarrow> proc \<Rightarrow> bool" where
  "proc_ok env p =
     ((\<forall>e \<in> set (IndexMap p). \<forall>j \<in> set (snd e). j \<noteq> 404 \<and> status_ok env j)
      \<and> (\<forall>j \<in> fst ` set (DataMap p). j \<noteq> 404 \<and> status_ok env j))"

definition same_db :: "disk \<Rightarrow> disk \<Rightarrow> bool" where
  "same_db d d' = (main d' = main d \<and> data d' = data d \<and> log_db d' = log_db d)"

definition round_keeps :: "'b env \<Rightarrow> int \<Rightarrow> proc \<Rightarrow> (outcome \<times> proc) + proc \<Rightarrow> bool" where
  "round_keeps env i p x =
     (case x of
        Inl res \<Rightarrow> proc_ok env (snd res) \<and> same_db (files p) (files (snd res))
      | Inr p' \<Rightarrow> proc_ok env p' \<and> same_db (files p) (files p') \<and> Index p' = go_inc i)"

subsection \<open>Observations on the stores\<close>

text \<open>What \<open>getRefs\<close> reads for one term: the decoded postings list.\<close>

definition get_postings :: "disk \<Rightarrow> string \<Rightarrow> abort + int list" where
  "get_postings d t = (case bucket_Get (main d) t of Inl a \<Rightarrow> Inl a | Inr bs \<Rightarrow> Bstois bs)"

text \<open>The persisted cursor: the bytes under \<open>index\<close> in \<open>log.db\<close>, if any.\<close>

definition cursor :: "disk \<Rightarrow> byte list option" where
  "cursor d = (case log_db d of Logged b \<Rightarrow> Some b | _ \<Rightarrow> None)"

text \<open>Strictly ascending, hence free of duplicates.\<close>

definition ascending :: "int list \<Rightarrow> bool" where
  "ascending l = sorted_wrt (<) l"

subsection \<open>Scenarios\<close>

text \<open>
  Concrete stores and sources for the examples below. The bodies of the responses are
  already the list of their words, and every body decodes to the record \<open>doc0\<close>.
\<close>

definition doc0 :: LogData where
  "doc0 = \<lparr>Month = ''1'', Num = 1, Link = [], Year = ''2006'', News = [], SafeTitle = [],
     Transcript = [], Alt = [], Img = [], Title = [], Day = ''1''\<rparr>"

definition disk_comic :: disk where
  "disk_comic = \<lparr>comic_log = [], main = Some [(''comic'', Istobs [1, 2, 5])],
     data = Some [], log_db = NoFile\<rparr>"

definition env_of :: "(int \<Rightarrow> string list response option \<times> bool) \<Rightarrow> string list env" where
  "env_of get = \<lparr>OpenFile_err = False, http_Get = get, scan_words = (\<lambda>ws. ws),
     json_Unmarshal = (\<lambda>ws. (Some doc0, False)), proto_Marshal = (\<lambda>d. Some []),
     index_fault = NoFault, data_fault = NoFault, log_fault = NoFault\<rparr>"

text \<open>Comic 1 exists and holds the word \<open>a\<close>; every other number answers 404.\<close>

definition get_one :: "int \<Rightarrow> string list response option \<times> bool" where
  "get_one i =
     (if i = 1 then (Some (Response 200 [''a'']), False) else (Some (Response 404 []), False))"

text \<open>The request itself fails: no response, and an error.\<close>

definition get_fail :: "int \<Rightarrow> string list response option \<times> bool" where
  "get_fail i = (None, True)"

text \<open>The source of \<open>get_one\<close>, with the transaction of \<open>storeMapData\<close> failing.\<close>

definition env_data_fails :: "string list env" where
  "env_data_fails = (env_of get_one)\<lparr>data_fault := UpdateFault\<rparr>"

text \<open>The state of the process after the loop of that run.\<close>

definition proc_after_one :: proc where
  "proc_after_one = \<lparr>Index = 2, URL = XKCDURL @ Itoa 2, IndexMap = [(''a'', [1])],
     DataMap = [(1, doc0\<lparr>Link := XKCDURL @ Itoa 1\<rparr>)],
     files = disk0\<lparr>comic_log := [(1, Some doc0)]\<rparr>\<rparr>"

text \<open>The cursor stands at 65535; comic 65535 exists, 65536 does not.\<close>

definition get_last :: "int \<Rightarrow> string list response option \<times> bool" where
  "get_last i =
     (if i = 65535 then (Some (Response 200 []), False) else (Some (Response 404 []), False))"

definition disk_65535 :: disk where
  "disk_65535 = disk0\<lparr>log_db := Logged (Itob 65535)\<rparr>"

text \<open>Any source at all; and one with 65940 comics.\<close>

definition any_source :: "string list env \<Rightarrow> bool" where
  "any_source env = True"

definition get_many :: "int \<Rightarrow> string list response option \<times> bool" where
  "get_many i =
     (if i \<le> 65940 then (Some (Response 200 []), False) else (Some (Response 404 []), False))"

section \<open>Lemmas on the encodings\<close>

lemma Uint16_PutUint16: "Uint16 (PutUint16 w @ bs) = Inr w"
proof -
  have "ucast (ucast w :: byte) OR push_bit 8 (ucast (ucast (drop_bit 8 w) :: byte)) = w"
    by (rule bit_word_eqI) (auto simp: bit_simps)
  then show ?thesis by (simp add: PutUint16_def)
qed

lemma uint_uint16: "uint (uint16 i) = i mod 65536"
  by (simp add: uint16_def uint_word_of_int)

lemma PutUint16_split: "PutUint16 w @ bs = ucast (drop_bit 8 w) # ucast w # bs"
  by (simp add: PutUint16_def)

lemma Bstois_loop_PutUint16:
  "Bstois_loop is (PutUint16 w @ bs) = Bstois_loop (is @ [uint w]) bs"
proof -
  have "Bstois_loop is (PutUint16 w @ bs) =
      (case Uint16 (PutUint16 w @ bs) of Inl a \<Rightarrow> Inl a
       | Inr v \<Rightarrow> Bstois_loop (is @ [uint v]) bs)"
    by (simp only: PutUint16_split Bstois_loop.simps)
  then show ?thesis by (simp only: Uint16_PutUint16 sum.case)
qed

lemma Istobs_loop_append: "Istobs_loop bs s = bs @ Istobs_loop [] s"
proof (induction s arbitrary: bs)
  case Nil
  show ?case by simp
next
  case (Cons v s)
  have "Istobs_loop bs (v # s) = (bs @ PutUint16 (uint16 v)) @ Istobs_loop [] s"
    using Cons.IH [of "bs @ PutUint16 (uint16 v)"] by simp
  moreover have "Istobs_loop [] (v # s) = PutUint16 (uint16 v) @ Istobs_loop [] s"
    using Cons.IH [of "PutUint16 (uint16 v)"] by simp
  ultimately show ?case by simp
qed

lemma Istobs_Nil: "Istobs [] = []"
  by (simp add: Istobs_def)

lemma Istobs_Cons: "Istobs (v # s) = PutUint16 (uint16 v) @ Istobs s"
  using Istobs_loop_append [of "PutUint16 (uint16 v)" s] by (simp add: Istobs_def)

lemma Istobs_append: "Istobs (s @ t) = Istobs s @ Istobs t"
  by (induction s) (simp_all add: Istobs_Nil Istobs_Cons)

lemma Bstois_loop_Istobs:
  "Bstois_loop is (Istobs s @ bs) = Bstois_loop (is @ map (\<lambda>v. v mod 65536) s) bs"
proof (induction s arbitrary: "is")
  case Nil
  show ?case by (simp add: Istobs_Nil)
next
  case (Cons v s)
  have "Bstois_loop is (Istobs (v # s) @ bs) =
      Bstois_loop (is @ [uint (uint16 v)]) (Istobs s @ bs)"
    using Bstois_loop_PutUint16 [of "is" "uint16 v" "Istobs s @ bs"]
    by (simp add: Istobs_Cons)
  then show ?case by (simp add: Cons.IH uint_uint16)
qed

lemma Bstois_Istobs_mod: "Bstois (Istobs s) = Inr (map (\<lambda>v. v mod 65536) s)"
  using Bstois_loop_Istobs [of "[]" s "[]"] by (simp add: Bstois_def)

section \<open>Claims on the encodings\<close>

text \<open>
  Claim C9. Decoding a postings list is the exact inverse of encoding it: for every finite
  sequence \<open>s\<close> of document IDs, each between 0 and 65535, \<open>Bstois (Istobs s)\<close> returns
  \<open>s\<close>, in the same order, and does not panic.
\<close>

theorem C9_Bstois_Istobs:
  assumes "\<forall>v \<in> set s. 0 \<le> v \<and> v \<le> 65535"
  shows "Bstois (Istobs s) = Inr s"
proof -
  have "map (\<lambda>v. v mod 65536) s = s"
  proof (rule map_idI)
    fix v assume "v \<in> set s"
    with assms have "0 \<le> v" and "v < 65536" by auto
    then show "v mod 65536 = v" by simp
  qed
  then show ?thesis by (simp add: Bstois_Istobs_mod)
qed

theorem C9_Bstois_Istobs_witness:
  "Bstois (Istobs [0, 1, 2, 5, 404, 65535]) = Inr [0, 1, 2, 5, 404, 65535]"
  using C9_Bstois_Istobs [of "[0, 1, 2, 5, 404, 65535]"] by simp



section \<open>Search: intersection and unknown terms\<close>

lemma Bstois_Nil: "Bstois [] = Inr []"
  by (simp add: Bstois_def)

lemma checkMap_fold:
  "(fold (\<lambda>v m. m(v \<mapsto> True)) s m0) v \<noteq> None \<longleftrightarrow> v \<in> set s \<or> m0 v \<noteq> None"
  by (induction s arbitrary: m0) auto

lemma checkMap_of_None: "checkMap_of s1 v = None \<longleftrightarrow> v \<notin> set s1"
  using checkMap_fold [of s1 Map.empty v] by (auto simp: checkMap_of_def)

lemma checkMap_of_Some: "(\<exists>y. checkMap_of s1 v = Some y) \<longleftrightarrow> v \<in> set s1"
  using checkMap_of_None [of s1 v] by auto

lemma sorted_le_last: "sorted (s :: int list) \<Longrightarrow> u \<in> set s \<Longrightarrow> u \<le> last s"
  by (induction s) auto

text \<open>
  With a non-empty first list the scan is right: on ascending lists it returns the values
  of \<open>s2\<close> that are in \<open>s1\<close>, in the order of \<open>s2\<close>, and the early stop loses nothing.
\<close>

lemma intersection_scan_nonempty:
  assumes "s1 \<noteq> []" and "sorted s1" and "sorted s2"
  shows "intersection_scan s1 c s2 = Inr (c @ filter (\<lambda>v. v \<in> set s1) s2)"
  using assms(3)
proof (induction s2 arbitrary: c)
  case Nil
  show ?case by simp
next
  case (Cons v s2)
  from Cons.prems have s2: "sorted s2" and le: "\<forall>u \<in> set s2. v \<le> u" by simp_all
  have li: "last_index s1 = Inr (last s1)" using assms(1) by (simp add: last_index_def)
  show ?case
  proof (cases "v > last s1")
    case True
    have "\<forall>u \<in> set (v # s2). u \<notin> set s1"
    proof
      fix u assume "u \<in> set (v # s2)"
      then have "v \<le> u" using le by auto
      with True have "last s1 < u" by simp
      then show "u \<notin> set s1" using sorted_le_last [OF assms(2), of u] by auto
    qed
    then have "filter (\<lambda>v. v \<in> set s1) (v # s2) = []" by (simp add: filter_empty_conv)
    then show ?thesis using True li by simp
  next
    case False
    have "intersection_scan s1 c (v # s2) =
        (if v \<in> set s1 then intersection_scan s1 (c @ [v]) s2 else intersection_scan s1 c s2)"
      using False li by (simp add: checkMap_of_None checkMap_of_Some)
    then show ?thesis using Cons.IH [OF s2] by simp
  qed
qed

lemma intersection_nonempty:
  assumes "s1 \<noteq> []" and "sorted s1" and "sorted s2"
  shows "intersection s1 s2 = Inr (filter (\<lambda>v. v \<in> set s1) s2)"
  using intersection_scan_nonempty [OF assms, of "[]"] by (simp add: intersection_def)

lemma intersection_nonempty_set:
  assumes "s1 \<noteq> []" and "sorted s1" and "sorted s2"
  shows "\<exists>c. intersection s1 s2 = Inr c \<and> set c = set s1 \<inter> set s2 \<and> sorted c"
proof -
  have "set (filter (\<lambda>v. v \<in> set s1) s2) = set s1 \<inter> set s2" by auto
  moreover have "sorted (filter (\<lambda>v. v \<in> set s1) s2)" using assms(3) by (rule sorted_wrt_filter)
  ultimately show ?thesis using intersection_nonempty [OF assms] by simp
qed

lemma intersection_example: "intersection [1, 2, 3, 9] [2, 3, 7] = Inr [2, 3]"
  by (simp add: intersection_def last_index_def checkMap_of_def)

text \<open>
  Claim C3 (the code departs from it). The claim asks that \<open>intersection A B\<close> be the
  set intersection for all ascending duplicate-free \<open>A\<close> and \<open>B\<close>, empty ones included.
  With \<open>A\<close> empty and \<open>B\<close> not, the first round of the scan reads \<open>s1[len(s1)-1]\<close>, that is
  \<open>s1[-1]\<close>, and the function panics instead of returning the empty intersection.
\<close>

theorem C3_intersection_empty_first_panics:
  "intersection [] (v # s2) = Inl IndexOutOfRange"
  by (simp add: intersection_def last_index_def)

lemma Split_comic_zzz:
  "Split (''comic zzz'' @ [CHR 0x0A]) = [''comic'', ''zzz'' @ [CHR 0x0A]]"
  by (simp add: Split_def)

lemma getRefs_comic_zzz:
  "getRefs (Some [(''comic'', Istobs [1, 2, 5])]) [''comic'', ''zzz'' @ [CHR 0x0A]]
   = Inr [(''comic'', [1, 2, 5]), (''zzz'', [])]"
  by (simp add: getRefs_def TrimSpace_def isSpace_def bucket_Get_def Bstois_Istobs_mod Bstois_Nil)

lemma sortMap_comic_zzz:
  "sortMap [(''comic'', [1, 2, 5]), (''zzz'', [])]
   = [\<lparr>Key = ''zzz'', Value = [], Len = 0\<rparr>, \<lparr>Key = ''comic'', Value = [1, 2, 5], Len = 3\<rparr>]"
  by (simp add: sortMap_def)

lemma search_ids_comic_zzz:
  "search_ids (main disk_comic) (''comic zzz'' @ [CHR 0x0A]) = Inl IndexOutOfRange"
  by (simp add: search_ids_def disk_comic_def Split_comic_zzz getRefs_comic_zzz
      sortMap_comic_zzz intersection_def last_index_def del: append.simps)

text \<open>
  Claim C2 (the code departs from it). The store holds the postings \<open>[1, 2, 5]\<close> for
  \<open>comic\<close> and nothing for \<open>zzz\<close>. The query \<open>comic zzz\<close> reads the empty list for \<open>zzz\<close>,
  sorts it first, and \<open>intersection\<close> panics on it: the search crashes where the claim
  asks for an empty result.
\<close>

theorem C2_unknown_term_panics:
  "searchIndex decodeProto disk_comic (''comic zzz'' @ [CHR 0x0A]) = Inl IndexOutOfRange"
  by (simp add: searchIndex_def search_ids_comic_zzz del: append.simps)

text \<open>An unknown term alone, or only unknown terms, do give the empty result.\<close>

lemma search_unknown_alone:
  "searchIndex decodeProto disk_comic (''zzz'' @ [CHR 0x0A]) = Inr []"
  by (simp add: searchIndex_def search_ids_def disk_comic_def Split_def getRefs_def
      TrimSpace_def isSpace_def bucket_Get_def Bstois_Nil returnData_def)

section \<open>The loop of GetInfo, one round at a time\<close>

lemma loop_stop: "\<not> 0 < i \<Longrightarrow> GetInfo_loop env i p = (Nil, p)"
  by (subst GetInfo_loop.simps) simp

lemma loop_404: "GetInfo_loop env 404 p = GetInfo_loop env 405 (p\<lparr>Index := go_inc (Index p)\<rparr>)"
  by (subst GetInfo_loop.simps) (simp add: go_inc_def)

lemma loop_nil_resp:
  "0 < i \<Longrightarrow> i \<noteq> 404 \<Longrightarrow> http_Get env i = (None, e) \<Longrightarrow>
   GetInfo_loop env i p = (Aborted NilPointerDereference, p\<lparr>URL := XKCDURL @ Itoa i\<rparr>)"
  by (subst GetInfo_loop.simps) (simp add: Let_def)

lemma loop_not_found:
  "0 < i \<Longrightarrow> i \<noteq> 404 \<Longrightarrow> http_Get env i = (Some resp, False) \<Longrightarrow> StatusCode resp = 404 \<Longrightarrow>
   GetInfo_loop env i p = (Nil, p\<lparr>URL := XKCDURL @ Itoa i\<rparr>)"
  by (subst GetInfo_loop.simps) (simp add: Let_def)

lemma loop_ok:
  "0 < i \<Longrightarrow> i \<noteq> 404 \<Longrightarrow> http_Get env i = (Some resp, False) \<Longrightarrow> StatusCode resp = 200 \<Longrightarrow>
   json_Unmarshal env (Body resp) = (Some d, False) \<Longrightarrow>
   GetInfo_loop env i p = GetInfo_loop env (go_inc i) (process env (Body resp) i d p)"
  by (subst GetInfo_loop.simps)
    (simp add: Let_def mapData_def writeOutput_def process_def mapTerms_def)

lemma loop_get_one:
  "GetInfo_loop (env_of get_one\<lparr>data_fault := f\<rparr>) 1
     \<lparr>Index = 1, URL = [], IndexMap = [], DataMap = [], files = d\<rparr>
   = (Nil, \<lparr>Index = 2, URL = XKCDURL @ Itoa 2, IndexMap = [(''a'', [1])],
        DataMap = [(1, doc0\<lparr>Link := XKCDURL @ Itoa 1\<rparr>)],
        files = d\<lparr>comic_log := comic_log d @ [(1, Some doc0)]\<rparr>\<rparr>)"
  apply (subst loop_ok [where resp = "Response 200 [''a'']" and d = doc0])
       apply (simp_all add: get_one_def env_of_def)
  apply (simp add: process_def mapTerms_def go_inc_def appendIfUnique_def slice_at_def)
  apply (subst loop_not_found [where resp = "Response 404 []"])
      apply (simp_all add: get_one_def)
  done

section \<open>The merge of storeIndexMap\<close>

lemma Bstois_loop_append:
  "Bstois_loop is bs = Inr r \<Longrightarrow> Bstois_loop is (bs @ cs) = Bstois_loop r cs"
  by (induction "is" bs rule: Bstois_loop.induct) simp_all

lemma Bstois_append_Istobs:
  assumes "Bstois bs = Inr old"
  shows "Bstois (bs @ Istobs v) = Inr (old @ map (\<lambda>i. i mod 65536) v)"
proof -
  have "Bstois_loop [] (bs @ Istobs v) = Bstois_loop old (Istobs v @ [])"
    using assms Bstois_loop_append [of "[]" bs old "Istobs v"] by (simp add: Bstois_def)
  also have "\<dots> = Inr (old @ map (\<lambda>i. i mod 65536) v)"
    by (simp only: Bstois_loop_Istobs Bstois_loop.simps)
  finally show ?thesis by (simp add: Bstois_def)
qed

lemma Get_update: "Get (AList.update k v b) k' = (if k' = k then v else Get b k')"
  by (simp add: Get_def update_conv')

lemma Get_storeIndexMap_tx:
  "distinct (map fst m) \<Longrightarrow>
   Get (storeIndexMap_tx m b) k =
     (case map_of m k of None \<Rightarrow> Get b k | Some v \<Rightarrow> Get b k @ Istobs v)"
proof (induction m arbitrary: b)
  case Nil
  show ?case by simp
next
  case (Cons e m)
  obtain k' v' where e: "e = (k', v')" by (cases e)
  from Cons.prems e have d: "distinct (map fst m)" and nk: "k' \<notin> fst ` set m" by auto
  from nk have none: "map_of m k' = None" by (simp add: map_of_eq_None_iff)
  show ?case
  proof (cases "k = k'")
    case True
    then show ?thesis using Cons.IH [OF d] e none by (simp add: Get_update)
  next
    case False
    then show ?thesis using Cons.IH [OF d] e by (simp add: Get_update split: option.splits)
  qed
qed

text \<open>
  Claim C4 (amended). \<open>storeIndexMap\<close> does not look at what is stored: for each term of
  the map it reads the stored bytes and appends the encoding of all new IDs, each
  truncated to 16 bits. The stored list decodes to the old list followed by the new IDs;
  it is ascending and duplicate-free when the old list and the new IDs are, every old ID is
  below every new one, and the new IDs are between 0 and 65535.
\<close>

theorem C4_merge_appends_all:
  assumes "distinct (map fst m)" and "map_of m t = Some newIDs"
    and "Bstois (Get b t) = Inr old"
  shows "Bstois (Get (storeIndexMap_tx m b) t) = Inr (old @ map (\<lambda>i. i mod 65536) newIDs)
    \<and> (ascending old \<and> ascending newIDs \<and> (\<forall>x \<in> set old. \<forall>y \<in> set newIDs. x < y)
         \<and> (\<forall>y \<in> set newIDs. 0 \<le> y \<and> y \<le> 65535)
       \<longrightarrow> map (\<lambda>i. i mod 65536) newIDs = newIDs \<and> ascending (old @ newIDs))"
proof -
  have "Get (storeIndexMap_tx m b) t = Get b t @ Istobs newIDs"
    using Get_storeIndexMap_tx [OF assms(1), of b t] assms(2) by simp
  then have stored: "Bstois (Get (storeIndexMap_tx m b) t) = Inr (old @ map (\<lambda>i. i mod 65536) newIDs)"
    using Bstois_append_Istobs [OF assms(3), of newIDs] by simp
  have "map (\<lambda>i. i mod 65536) newIDs = newIDs" if "\<forall>y \<in> set newIDs. 0 \<le> y \<and> y \<le> 65535"
  proof (rule map_idI)
    fix y assume "y \<in> set newIDs"
    with that have "0 \<le> y" and "y < 65536" by auto
    then show "y mod 65536 = y" by simp
  qed
  moreover have "ascending (old @ newIDs)"
    if "ascending old" "ascending newIDs" "\<forall>x \<in> set old. \<forall>y \<in> set newIDs. x < y"
    using that by (simp add: ascending_def sorted_wrt_append)
  ultimately show ?thesis using stored by blast
qed

theorem C4_merge_appends_all_witness:
  "Bstois (Get (storeIndexMap_tx [(''a'', [2, 3])] [(''a'', Istobs [1])]) ''a'') = Inr [1, 2, 3]
   \<and> ascending ([1] @ [2, 3])"
proof -
  have b: "Bstois (Get [(''a'', Istobs [1])] ''a'') = Inr [1]"
    by (simp add: Get_def Bstois_Istobs_mod)
  note c4 = C4_merge_appends_all [of "[(''a'', [2, 3])]" "''a''" "[2, 3]" "[(''a'', Istobs [1])]" "[1]"]
  have "Bstois (Get (storeIndexMap_tx [(''a'', [2, 3])] [(''a'', Istobs [1])]) ''a'') = Inr [1, 2, 3]"
    using c4 b by simp
  moreover have "ascending ([1] @ [2, 3])"
    using c4 b by (simp add: ascending_def)
  ultimately show ?thesis by simp
qed

theorem C4_merge_duplicates_counterexample:
  "Bstois (Get (storeIndexMap_tx [(''a'', [1])] [(''a'', Istobs [1])]) ''a'') = Inr [1, 1]
   \<and> \<not> ascending [1, 1] \<and> \<not> distinct [1, 1 :: int]"
  by (simp add: Get_def ascending_def Bstois_Istobs_mod Istobs_append [symmetric])

section \<open>The flush\<close>

text \<open>
  When the flush fails, the bytes of the cursor and the text log are as before it.
\<close>

lemma flush_failure_keeps_cursor:
  assumes "flush env p = (r, p')" and "r \<noteq> Nil"
  shows "cursor (files p') = cursor (files p) \<and> comic_log (files p') = comic_log (files p)"
  using assms
  by (auto simp: flush_def storeIndexMap_def storeMapData_def logIndexVar_def cursor_def
      split: bolt_fault.splits option.splits logfile.splits)

lemma flush_data_fails:
  "flush env_data_fails proc_after_one =
     (Err StoreMapDataFailed,
      proc_after_one\<lparr>files := disk0\<lparr>comic_log := [(1, Some doc0)],
        main := Some [(''a'', Istobs [1])]\<rparr>\<rparr>)"
  by (simp add: flush_def env_data_fails_def env_of_def proc_after_one_def disk0_def
      storeIndexMap_def storeMapData_def CreateBucketIfNotExists_def Get_def)

lemma run_data_fails:
  "updateIndex env_data_fails disk0 =
     (Err StoreMapDataFailed,
      disk0\<lparr>comic_log := [(1, Some doc0)], main := Some [(''a'', Istobs [1])]\<rparr>)"
proof -
  have "GetInfo env_data_fails \<lparr>Index = 1, URL = [], IndexMap = [], DataMap = [], files = disk0\<rparr>
      = flush env_data_fails proc_after_one"
    using loop_get_one [of UpdateFault disk0]
    by (simp add: GetInfo_def env_data_fails_def env_of_def proc_after_one_def disk0_def)
  then show ?thesis
    by (simp add: updateIndex_def GetIndex_def flush_data_fails)
      (simp add: disk0_def)
qed

text \<open>
  Claim C1 (the code departs from it). The claim asks that a failing flush leave
  postings, documents and cursor unchanged. The flush is three transactions, one per
  call of \<open>storeIndexMap\<close>, \<open>storeMapData\<close> and \<open>logIndexVar\<close>. In this run, from the empty
  disk, the second one fails: the run returns the error, no document and no cursor are
  stored, and the postings of the first transaction are on disk, where a search reads
  them.
\<close>

theorem C1_flush_not_atomic:
  "fst (updateIndex env_data_fails disk0) = Err StoreMapDataFailed
   \<and> main (snd (updateIndex env_data_fails disk0)) = Some [(''a'', Istobs [1])]
   \<and> main (snd (updateIndex env_data_fails disk0)) \<noteq> main disk0
   \<and> data (snd (updateIndex env_data_fails disk0)) = None
   \<and> log_db (snd (updateIndex env_data_fails disk0)) = NoFile
   \<and> get_postings (snd (updateIndex env_data_fails disk0)) ''a'' = Inr [1]"
  by (simp add: run_data_fails get_postings_def bucket_Get_def Bstois_Istobs_mod)
    (simp add: disk0_def)

section \<open>Runs that fail\<close>

lemma run_after_data_fails:
  "updateIndex (env_of get_one)
     (disk0\<lparr>comic_log := [(1, Some doc0)], main := Some [(''a'', Istobs [1])]\<rparr>)
   = (Nil, \<lparr>comic_log = [(1, Some doc0), (1, Some doc0)],
        main = Some [(''a'', Istobs [1] @ Istobs [1])],
        data = Some [(Itob 1, [])], log_db = Logged (Itob 2)\<rparr>)"
proof -
  let ?d = "disk0\<lparr>comic_log := [(1, Some doc0)], main := Some [(''a'', Istobs [1])]\<rparr>"
  have e: "env_of get_one = env_of get_one\<lparr>data_fault := NoFault\<rparr>"
    by (simp add: env_of_def)
  have "GetInfo_loop (env_of get_one) 1
      \<lparr>Index = 1, URL = [], IndexMap = [], DataMap = [], files = ?d\<rparr>
    = (Nil, \<lparr>Index = 2, URL = XKCDURL @ Itoa 2, IndexMap = [(''a'', [1])],
        DataMap = [(1, doc0\<lparr>Link := XKCDURL @ Itoa 1\<rparr>)],
        files = ?d\<lparr>comic_log := comic_log ?d @ [(1, Some doc0)]\<rparr>\<rparr>)"
    using loop_get_one [of NoFault ?d] e by simp
  then show ?thesis
    by (simp add: updateIndex_def GetIndex_def GetInfo_def disk0_def)
      (simp add: env_of_def flush_def storeIndexMap_def storeMapData_def logIndexVar_def
        CreateBucketIfNotExists_def Get_def)
qed

text \<open>
  Claim C5 (the code departs from it). The first run, against \<open>env_data_fails\<close> on the
  empty disk, stored the postings of comic 1 and failed before the cursor was written. The next run starts at 1 again and appends the
  same ID to the stored list: the postings of \<open>a\<close> read \<open>[1, 1]\<close>, neither strictly
  ascending nor free of duplicates.
\<close>

theorem C5_rerun_duplicates_postings:
  "get_postings (snd (updateIndex (env_of get_one) (snd (updateIndex env_data_fails disk0)))) ''a''
     = Inr [1, 1]"
  by (simp add: run_data_fails run_after_data_fails get_postings_def bucket_Get_def
      Istobs_append [symmetric] Bstois_Istobs_mod)

text \<open>
  Claim C7 (the code departs from it). \<open>http.Get\<close> fails and returns no response. The
  branch for the error first calls \<open>resp.Body.Close()\<close> on the nil response: the run ends in
  a panic, not in the returned error. Nothing was flushed and the cursor is as before.
\<close>

theorem C7_transport_error_panics:
  "updateIndex (env_of get_fail) disk0 = (Aborted NilPointerDereference, disk0)"
proof -
  have "GetInfo_loop (env_of get_fail) 1
      \<lparr>Index = 1, URL = [], IndexMap = [], DataMap = [], files = disk0\<rparr>
    = (Aborted NilPointerDereference,
       \<lparr>Index = 1, URL = XKCDURL @ Itoa 1, IndexMap = [], DataMap = [], files = disk0\<rparr>)"
    by (subst loop_nil_resp [where e = True]) (simp_all add: env_of_def get_fail_def)
  then show ?thesis
    by (simp add: updateIndex_def GetIndex_def GetInfo_def disk0_def env_of_def)
qed

text \<open>
  A body that \<open>json.Unmarshal\<close> rejects as a whole leaves the \<open>*LogData\<close> pointer nil;
  \<open>mapData\<close> writes through it before \<open>writeOutput\<close> can return the error.
\<close>

lemma decode_error_panics:
  assumes "0 < i" and "i \<noteq> 404" and "http_Get env i = (Some resp, False)"
    and "StatusCode resp = 200" and "json_Unmarshal env (Body resp) = (None, True)"
  shows "fst (GetInfo_loop env i p) = Aborted NilPointerDereference"
  using assms by (subst GetInfo_loop.simps) (simp add: Let_def mapData_def)

section \<open>Resuming at the cursor\<close>

lemma servedD:
  assumes "served env j"
  obtains resp d where "http_Get env j = (Some resp, False)" and "StatusCode resp = 200"
    and "json_Unmarshal env (Body resp) = (Some d, False)"
proof -
  obtain r e where g: "http_Get env j = (r, e)" by (cases "http_Get env j")
  with assms obtain resp where r: "r = Some resp" by (cases r) (auto simp: served_def)
  from assms g r have e: "\<not> e" and st: "StatusCode resp = 200"
    and u1: "fst (json_Unmarshal env (Body resp)) \<noteq> None"
    and u2: "\<not> snd (json_Unmarshal env (Body resp))"
    by (auto simp: served_def)
  from u1 obtain d where "fst (json_Unmarshal env (Body resp)) = Some d" by auto
  with u2 have "json_Unmarshal env (Body resp) = (Some d, False)"
    by (cases "json_Unmarshal env (Body resp)") auto
  with g r e st that show thesis by auto
qed

lemma frontierD:
  assumes "frontier env f"
  obtains resp where "f \<noteq> 404" and "http_Get env f = (Some resp, False)" and "StatusCode resp = 404"
proof -
  obtain r e where g: "http_Get env f = (r, e)" by (cases "http_Get env f")
  with assms obtain resp where r: "r = Some resp" by (cases r) (auto simp: frontier_def)
  from assms g r have "\<not> e" and "StatusCode resp = 404" and "f \<noteq> 404"
    by (auto simp: frontier_def)
  with g r that show thesis by auto
qed

lemma Index_mapTerms: "Index (mapTerms ws p) = Index p"
  by (simp add: mapTerms_def)

lemma process_Index: "Index (process env body i d p) = go_inc (Index p)"
  by (simp add: process_def Let_def mapTerms_def)

lemma process_files:
  "files (process env body i d p) = (files p)\<lparr>comic_log := comic_log (files p) @ [(Index p, Some d)]\<rparr>"
  by (simp add: process_def Let_def mapTerms_def)

lemma process_DataMap_keys:
  "fst ` set (DataMap (process env body i d p)) = insert (Index p) (fst ` set (DataMap p))"
  by (simp add: process_def Let_def mapTerms_def dom_update)

lemma go_inc_small: "i < 9223372036854775807 \<Longrightarrow> go_inc i = i + 1"
  by (simp add: go_inc_def)

lemma loop_spec_end: "loop_spec f f p (p\<lparr>URL := u\<rparr>) \<longleftrightarrow> Index p = f"
proof -
  have e: "{j. f \<le> j \<and> j < f \<and> j \<noteq> 404} = {}" by auto
  show ?thesis unfolding loop_spec_def e by simp
qed

lemma loop_spec_skip:
  assumes "c = 404" and "c < f" and "loop_spec (c + 1) f (p\<lparr>Index := x\<rparr>) p'"
  shows "loop_spec c f p p'"
proof -
  have "[c..f - 1] = c # [c + 1..f - 1]" using assms(2) by (simp add: upto_rec1)
  then have a: "filter (\<lambda>j. j \<noteq> 404) [c..f - 1] = filter (\<lambda>j. j \<noteq> 404) [c + 1..f - 1]"
    using assms(1) by simp
  have b: "{j. c + 1 \<le> j \<and> j < f \<and> j \<noteq> 404} = {j. c \<le> j \<and> j < f \<and> j \<noteq> 404}"
    using assms(1) by auto
  show ?thesis using assms(3) unfolding loop_spec_def a b by simp
qed

lemma loop_spec_step:
  assumes "c \<noteq> 404" and "c < f" and "Index p = c"
    and "loop_spec (c + 1) f (process env body i d p) p'"
  shows "loop_spec c f p p'"
proof -
  have "[c..f - 1] = c # [c + 1..f - 1]" using assms(2) by (simp add: upto_rec1)
  then have a: "filter (\<lambda>j. j \<noteq> 404) [c..f - 1] = c # filter (\<lambda>j. j \<noteq> 404) [c + 1..f - 1]"
    using assms(1) by simp
  have b: "{j. c \<le> j \<and> j < f \<and> j \<noteq> 404} = insert c {j. c + 1 \<le> j \<and> j < f \<and> j \<noteq> 404}"
    using assms(1,2) by auto
  show ?thesis
    using assms(3,4) unfolding loop_spec_def a b
    by (simp add: process_files process_DataMap_keys)
qed

lemma loop_run:
  assumes "frontier env f" and "f \<le> 9223372036854775807"
  shows "\<forall>j. c \<le> j \<and> j < f \<and> j \<noteq> 404 \<longrightarrow> served env j \<Longrightarrow>
    0 < c \<Longrightarrow> c \<le> f \<Longrightarrow> Index p = c \<Longrightarrow>
    \<exists>p'. GetInfo_loop env c p = (Nil, p') \<and> loop_spec c f p p'"
proof (induction "nat (f - c)" arbitrary: c p)
  case 0
  then have cf: "c = f" by simp
  from frontierD [OF assms(1)] obtain resp where
    fr: "f \<noteq> 404" "http_Get env f = (Some resp, False)" "StatusCode resp = 404" by blast
  have "GetInfo_loop env c p = (Nil, p\<lparr>URL := XKCDURL @ Itoa c\<rparr>)"
    using loop_not_found [of c env resp p] fr cf "0.prems" by simp
  moreover have "loop_spec c f p (p\<lparr>URL := XKCDURL @ Itoa c\<rparr>)"
    using cf "0.prems"(4) by (simp add: loop_spec_end)
  ultimately show ?case by blast
next
  case (Suc n)
  then have lt: "c < f" by linarith
  then have inc: "go_inc c = c + 1" using assms(2) by (simp add: go_inc_small)
  have n: "n = nat (f - (c + 1))" using Suc.hyps(2) by linarith
  have sv': "\<forall>j. c + 1 \<le> j \<and> j < f \<and> j \<noteq> 404 \<longrightarrow> served env j"
    using Suc.prems(1) by simp
  have pos: "0 < c + 1" and le: "c + 1 \<le> f" using Suc.prems(2) lt by simp_all
  show ?case
  proof (cases "c = 404")
    case True
    let ?p = "p\<lparr>Index := go_inc (Index p)\<rparr>"
    have step: "GetInfo_loop env c p = GetInfo_loop env (c + 1) ?p"
      using loop_404 [of env p] True by simp
    have ix: "Index ?p = c + 1" using Suc.prems(4) inc by simp
    from Suc.hyps(1) [OF n sv' pos le ix] obtain p' where
      p': "GetInfo_loop env (c + 1) ?p = (Nil, p')" "loop_spec (c + 1) f ?p p'" by blast
    from loop_spec_skip [OF True lt p'(2)] p'(1) step show ?thesis by simp
  next
    case False
    have "served env c" using Suc.prems(1) lt False by simp
    from servedD [OF this] obtain resp d where
      sv: "http_Get env c = (Some resp, False)" "StatusCode resp = 200"
        "json_Unmarshal env (Body resp) = (Some d, False)" by blast
    let ?p = "process env (Body resp) c d p"
    have step: "GetInfo_loop env c p = GetInfo_loop env (c + 1) ?p"
      using loop_ok [OF Suc.prems(2) False sv, of p] inc by simp
    have ix: "Index ?p = c + 1" using Suc.prems(4) inc by (simp add: process_Index)
    from Suc.hyps(1) [OF n sv' pos le ix] obtain p' where
      p': "GetInfo_loop env (c + 1) ?p = (Nil, p')" "loop_spec (c + 1) f ?p p'" by blast
    from loop_spec_step [OF False lt Suc.prems(4) p'(2)] p'(1) step show ?thesis by simp
  qed
qed

lemma Btoi_Itob_mod: "Btoi (Itob i) = Inr (i mod 65536)"
  using Uint16_PutUint16 [of "uint16 i" "[]"] by (simp add: Btoi_def Itob_def uint_uint16)

lemma CreateBucketIfNotExists_Some: "CreateBucketIfNotExists (Some b) = b"
  by (simp add: CreateBucketIfNotExists_def)

lemma storeMapData_tx_total:
  "\<forall>x. conv x \<noteq> None \<Longrightarrow> \<exists>b'. storeMapData_tx conv m b = Some b'"
proof (induction m arbitrary: b)
  case Nil
  show ?case by simp
next
  case (Cons e m)
  obtain k v where e: "e = (k, v)" by (cases e)
  from Cons.prems obtain pb where "conv v = Some pb" by auto
  with Cons.IH [OF Cons.prems] e show ?case by simp
qed

lemma storeMapData_tx_keys:
  "storeMapData_tx conv m b = Some b' \<Longrightarrow> fst ` set b' = fst ` set b \<union> Itob ` fst ` set m"
proof (induction m arbitrary: b)
  case Nil
  then show ?case by simp
next
  case (Cons e m)
  obtain k v where e: "e = (k, v)" by (cases e)
  from Cons.prems e obtain pb where pb: "conv v = Some pb"
    and r: "storeMapData_tx conv m (AList.update (Itob k) pb b) = Some b'"
    by (auto split: option.splits)
  from Cons.IH [OF r] e show ?case by (auto simp: dom_update)
qed

lemma flush_ok:
  assumes "no_faults env"
  shows "\<exists>d'. flush env p = (Nil, p\<lparr>files := d'\<rparr>) \<and> comic_log d' = comic_log (files p)
    \<and> log_db d' = Logged (Itob (Index p))
    \<and> fst ` set (CreateBucketIfNotExists (data d')) =
        fst ` set (CreateBucketIfNotExists (data (files p))) \<union> Itob ` fst ` set (DataMap p)"
proof -
  from assms have nf: "index_fault env = NoFault" "data_fault env = NoFault"
    "log_fault env = NoFault" and tot: "\<forall>x. proto_Marshal env x \<noteq> None"
    by (simp_all add: no_faults_def)
  let ?d1 = "(files p)\<lparr>main := Some (storeIndexMap_tx (IndexMap p)
      (CreateBucketIfNotExists (main (files p))))\<rparr>"
  from storeMapData_tx_total [OF tot] obtain b' where
    b': "storeMapData_tx (proto_Marshal env) (DataMap p) (CreateBucketIfNotExists (data (files p))) = Some b'"
    by blast
  let ?d' = "?d1\<lparr>data := Some b', log_db := Logged (Itob (Index p))\<rparr>"
  have fl: "flush env p = (Nil, p\<lparr>files := ?d'\<rparr>)"
    using nf b' by (simp add: flush_def storeIndexMap_def storeMapData_def logIndexVar_def)
  have ks: "fst ` set (CreateBucketIfNotExists (data ?d')) =
      fst ` set (CreateBucketIfNotExists (data (files p))) \<union> Itob ` fst ` set (DataMap p)"
    using storeMapData_tx_keys [OF b'] by (simp add: CreateBucketIfNotExists_Some)
  have "comic_log ?d' = comic_log (files p)" and "log_db ?d' = Logged (Itob (Index p))"
    by simp_all
  with fl ks show ?thesis by blast
qed

lemma run_to_frontier:
  assumes "GetIndex d = Inr c" and "0 < c" and "c \<le> f" and "f \<le> 9223372036854775807"
    and "\<forall>j. c \<le> j \<and> j < f \<and> j \<noteq> 404 \<longrightarrow> served env j"
    and "frontier env f" and "no_faults env"
  shows "\<exists>d'. updateIndex env d = (Nil, d')
    \<and> map fst (comic_log d') = map fst (comic_log d) @ filter (\<lambda>j. j \<noteq> 404) [c..f - 1]
    \<and> log_db d' = Logged (Itob f)
    \<and> fst ` set (CreateBucketIfNotExists (data d')) =
        fst ` set (CreateBucketIfNotExists (data d)) \<union> Itob ` {j. c \<le> j \<and> j < f \<and> j \<noteq> 404}"
proof -
  let ?p = "\<lparr>Index = c, URL = [], IndexMap = [], DataMap = [], files = d\<rparr>"
  have ix: "Index ?p = c" by simp
  from loop_run [OF assms(6,4,5,2,3) ix] obtain p' where
    l: "GetInfo_loop env c ?p = (Nil, p')" and sp: "loop_spec c f ?p p'" by blast
  from flush_ok [OF assms(7), of p'] obtain d' where
    fl: "flush env p' = (Nil, p'\<lparr>files := d'\<rparr>)" and cl: "comic_log d' = comic_log (files p')"
    and lg: "log_db d' = Logged (Itob (Index p'))"
    and ks: "fst ` set (CreateBucketIfNotExists (data d')) =
        fst ` set (CreateBucketIfNotExists (data (files p'))) \<union> Itob ` fst ` set (DataMap p')"
    by blast
  have "\<not> OpenFile_err env" using assms(7) by (simp add: no_faults_def)
  then have "updateIndex env d = (Nil, d')"
    using assms(1) l fl by (simp add: updateIndex_def GetInfo_def)
  moreover have "map fst (comic_log d') = map fst (comic_log d) @ filter (\<lambda>j. j \<noteq> 404) [c..f - 1]"
    using sp cl by (simp add: loop_spec_def)
  moreover have "log_db d' = Logged (Itob f)" using sp lg by (simp add: loop_spec_def)
  moreover have "fst ` set (CreateBucketIfNotExists (data d')) =
      fst ` set (CreateBucketIfNotExists (data d)) \<union> Itob ` {j. c \<le> j \<and> j < f \<and> j \<noteq> 404}"
    using sp ks by (simp add: loop_spec_def)
  ultimately show ?thesis by blast
qed

text \<open>
  Claim C6 (amended). The store holds the cursor \<open>c\<close>, between 1 and 65535, or the file
  \<open>log.db\<close> does not exist and \<open>c\<close> is 1; the source serves every ID from \<open>c\<close> up to, not
  including, \<open>f\<close>, 404 aside, and answers 404 at \<open>f\<close>; nothing fails. Then the run
  succeeds, it processes exactly the IDs \<open>c, \<dots>, f - 1\<close> other than 404, in ascending order
  (the entries appended to the text log), and it persists the two bytes of \<open>f\<close>: the next
  run starts at \<open>f mod 65536\<close>, which is \<open>f\<close> when \<open>f\<close> is at most 65535.
\<close>

theorem C6_resume_at_cursor:
  assumes "log_db d = NoFile \<and> c = 1 \<or> log_db d = Logged (Itob c) \<and> c \<le> 65535"
    and "0 < c" and "c \<le> f" and "f \<le> 9223372036854775807"
    and "\<forall>j. c \<le> j \<and> j < f \<and> j \<noteq> 404 \<longrightarrow> served env j"
    and "frontier env f" and "no_faults env"
  shows "\<exists>d'. updateIndex env d = (Nil, d')
    \<and> map fst (comic_log d') = map fst (comic_log d) @ filter (\<lambda>j. j \<noteq> 404) [c..f - 1]
    \<and> cursor d' = Some (Itob f)
    \<and> GetIndex d' = Inr (f mod 65536)
    \<and> (f \<le> 65535 \<longrightarrow> GetIndex d' = Inr f)"
proof -
  have "c \<le> 65535 \<Longrightarrow> c mod 65536 = c" using assms(2) by simp
  with assms(1) have start: "GetIndex d = Inr c"
    by (auto simp: GetIndex_def Btoi_Itob_mod)
  from run_to_frontier [OF start assms(2-7)] obtain d' where
    r: "updateIndex env d = (Nil, d')"
      "map fst (comic_log d') = map fst (comic_log d) @ filter (\<lambda>j. j \<noteq> 404) [c..f - 1]"
      "log_db d' = Logged (Itob f)" by blast
  have g: "GetIndex d' = Inr (f mod 65536)"
    using r(3) by (simp add: GetIndex_def Btoi_Itob_mod)
  have "0 < f" using assms(2,3) by simp
  then have "f \<le> 65535 \<Longrightarrow> f mod 65536 = f" by simp
  with r g show ?thesis by (auto simp: cursor_def)
qed

text \<open>
  Outside that statement: \<open>log.db\<close> exists without the cursor (an earlier run created the
  file and its transaction failed). Reading the cursor then panics, and the run does
  nothing.
\<close>

lemma updateIndex_NoBucket:
  "log_db d = NoBucket \<Longrightarrow> updateIndex env d = (Aborted NilPointerDereference, d)"
  by (simp add: updateIndex_def GetIndex_def)

lemma no_faults_env_of: "no_faults (env_of get)"
  by (simp add: no_faults_def env_of_def)

lemma served_get_one: "\<forall>j. 1 \<le> j \<and> j < 2 \<and> j \<noteq> 404 \<longrightarrow> served (env_of get_one) j"
proof (intro allI impI)
  fix j :: int assume "1 \<le> j \<and> j < 2 \<and> j \<noteq> 404"
  then have "j = 1" by simp
  then show "served (env_of get_one) j" by (simp add: served_def env_of_def get_one_def)
qed

lemma served_get_last:
  "\<forall>j. 65535 \<le> j \<and> j < 65536 \<and> j \<noteq> 404 \<longrightarrow> served (env_of get_last) j"
proof (intro allI impI)
  fix j :: int assume "65535 \<le> j \<and> j < 65536 \<and> j \<noteq> 404"
  then have "j = 65535" by simp
  then show "served (env_of get_last) j" by (simp add: served_def env_of_def get_last_def)
qed

theorem C6_resume_at_cursor_witness:
  "fst (updateIndex (env_of get_one) disk0) = Nil
   \<and> map fst (comic_log (snd (updateIndex (env_of get_one) disk0))) = [1]
   \<and> GetIndex (snd (updateIndex (env_of get_one) disk0)) = Inr 2
   \<and> fst (updateIndex (env_of get_last) disk_65535) = Nil
   \<and> map fst (comic_log (snd (updateIndex (env_of get_last) disk_65535))) = [65535]
   \<and> cursor (snd (updateIndex (env_of get_last) disk_65535)) = Some (Itob 65536)"
proof -
  have s1: "log_db disk0 = NoFile \<and> (1::int) = 1
      \<or> log_db disk0 = Logged (Itob 1) \<and> (1::int) \<le> 65535"
    by (simp add: disk0_def)
  have fr1: "frontier (env_of get_one) 2" by (simp add: frontier_def env_of_def get_one_def)
  from C6_resume_at_cursor [OF s1 _ _ _ served_get_one fr1 no_faults_env_of] obtain d1 where
    r1: "updateIndex (env_of get_one) disk0 = (Nil, d1)"
      "map fst (comic_log d1) = map fst (comic_log disk0) @ filter (\<lambda>j. j \<noteq> 404) [1..2 - 1]"
      "GetIndex d1 = Inr (2 mod 65536)"
    by auto
  have s2: "log_db disk_65535 = NoFile \<and> (65535::int) = 1
      \<or> log_db disk_65535 = Logged (Itob 65535) \<and> (65535::int) \<le> 65535"
    by (simp add: disk_65535_def)
  have fr2: "frontier (env_of get_last) 65536"
    by (simp add: frontier_def env_of_def get_last_def)
  from C6_resume_at_cursor [OF s2 _ _ _ served_get_last fr2 no_faults_env_of] obtain d2 where
    r2: "updateIndex (env_of get_last) disk_65535 = (Nil, d2)"
      "map fst (comic_log d2) =
         map fst (comic_log disk_65535) @ filter (\<lambda>j. j \<noteq> 404) [65535..65536 - 1]"
      "cursor d2 = Some (Itob 65536)"
    by auto
  from r1 r2 show ?thesis by (simp add: disk0_def disk_65535_def)
qed

theorem C6_cursor_wraps_counterexample:
  "GetIndex disk_65535 = Inr 65535
   \<and> fst (updateIndex (env_of get_last) disk_65535) = Nil
   \<and> map fst (comic_log (snd (updateIndex (env_of get_last) disk_65535))) = [65535]
   \<and> GetIndex (snd (updateIndex (env_of get_last) disk_65535)) = Inr 0"
proof -
  have g: "GetIndex disk_65535 = Inr 65535"
    by (simp add: GetIndex_def disk_65535_def Btoi_Itob_mod)
  have sv: "\<forall>j. 65535 \<le> j \<and> j < 65536 \<and> j \<noteq> 404 \<longrightarrow> served (env_of get_last) j"
  proof (intro allI impI)
    fix j :: int assume "65535 \<le> j \<and> j < 65536 \<and> j \<noteq> 404"
    then have "j = 65535" by simp
    then show "served (env_of get_last) j" by (simp add: served_def env_of_def get_last_def)
  qed
  have fr: "frontier (env_of get_last) 65536" by (simp add: frontier_def env_of_def get_last_def)
  from run_to_frontier [OF g _ _ _ sv fr no_faults_env_of] obtain d' where
    r: "updateIndex (env_of get_last) disk_65535 = (Nil, d')"
      "map fst (comic_log d') = map fst (comic_log disk_65535) @ filter (\<lambda>j. j \<noteq> 404) [65535..65536 - 1]"
      "log_db d' = Logged (Itob 65536)"
    by auto
  have "GetIndex d' = Inr 0" using r(3) by (simp add: GetIndex_def Btoi_Itob_mod)
  with g r show ?thesis by (simp add: disk_65535_def disk0_def)
qed

section \<open>The reserved ID 404\<close>

lemma loop_unfold:
  "GetInfo_loop env i p =
     (if \<not> 0 < i then (Nil, p)
      else case GetInfo_round env i p of Inl res \<Rightarrow> res
           | Inr p' \<Rightarrow> GetInfo_loop env (go_inc i) p')"
  by (subst GetInfo_loop.simps)
    (simp add: GetInfo_round_def Let_def split: prod.splits option.splits sum.splits bool.splits)

lemma set_appendIfUnique: "set (appendIfUnique s i) \<subseteq> insert i (set s)"
  by (auto simp: appendIfUnique_def Let_def)

lemma set_slice_at:
  assumes "j \<in> set (slice_at m t)"
  shows "\<exists>e \<in> set m. j \<in> set (snd e)"
proof (cases "map_of m t")
  case None
  with assms show ?thesis by (simp add: slice_at_def)
next
  case (Some s)
  then have "(t, s) \<in> set m" by (rule map_of_SomeD)
  moreover from assms Some have "j \<in> set (snd (t, s))" by (simp add: slice_at_def)
  ultimately show ?thesis by blast
qed

lemma set_update_cases: "e \<in> set (AList.update k v al) \<Longrightarrow> e = (k, v) \<or> e \<in> set al"
  by (induction al) (auto split: if_splits)

lemma mapTerms_ids:
  assumes "P i"
  shows "\<forall>e \<in> set m. \<forall>j \<in> set (snd e). P j \<Longrightarrow>
    \<forall>e \<in> set (fold (\<lambda>t m. AList.update t (appendIfUnique (slice_at m t) i) m) ws m).
      \<forall>j \<in> set (snd e). P j"
proof (induction ws arbitrary: m)
  case Nil
  then show ?case by simp
next
  case (Cons t ws)
  let ?m = "AList.update t (appendIfUnique (slice_at m t) i) m"
  have "\<forall>e \<in> set ?m. \<forall>j \<in> set (snd e). P j"
  proof (intro ballI)
    fix e j assume e: "e \<in> set ?m" and j: "j \<in> set (snd e)"
    from set_update_cases [OF e] show "P j"
    proof
      assume "e = (t, appendIfUnique (slice_at m t) i)"
      with j set_appendIfUnique [of "slice_at m t" i] have "j = i \<or> j \<in> set (slice_at m t)"
        by auto
      then show ?thesis using assms Cons.prems set_slice_at [of j m t] by auto
    next
      assume "e \<in> set m"
      with j Cons.prems show ?thesis by auto
    qed
  qed
  from Cons.IH [OF this] show ?case by simp
qed

lemma proc_ok_mapTerms:
  assumes "proc_ok env p" and "Index p \<noteq> 404" and "status_ok env (Index p)"
  shows "proc_ok env (mapTerms ws (p\<lparr>URL := u\<rparr>))"
proof -
  have "\<forall>e \<in> set (IndexMap p). \<forall>j \<in> set (snd e). j \<noteq> 404 \<and> status_ok env j"
    using assms(1) by (simp add: proc_ok_def)
  from mapTerms_ids [where P = "\<lambda>j. j \<noteq> 404 \<and> status_ok env j", OF _ this, of "Index p" ws]
  have "\<forall>e \<in> set (IndexMap (mapTerms ws (p\<lparr>URL := u\<rparr>))). \<forall>j \<in> set (snd e). j \<noteq> 404 \<and> status_ok env j"
    using assms(2,3) by (simp add: mapTerms_def)
  moreover have "DataMap (mapTerms ws (p\<lparr>URL := u\<rparr>)) = DataMap p" by (simp add: mapTerms_def)
  ultimately show ?thesis using assms(1) by (simp add: proc_ok_def)
qed

lemma proc_ok_mapData:
  assumes "proc_ok env p" and "i \<noteq> 404" and "status_ok env i" and "mapData env body i p = Inr p'"
  shows "proc_ok env p' \<and> files p' = files p \<and> Index p' = Index p"
proof -
  from assms(4) obtain d where
    p': "p' = p\<lparr>DataMap := AList.update i (d\<lparr>Link := URL p\<rparr>) (DataMap p)\<rparr>"
    by (auto simp: mapData_def split: option.splits)
  have "fst ` set (DataMap p') = {i} \<union> fst ` set (DataMap p)"
    unfolding p' by (simp add: dom_update)
  then have "\<forall>j \<in> fst ` set (DataMap p'). j \<noteq> 404 \<and> status_ok env j"
    using assms(1,2,3) by (simp add: proc_ok_def)
  moreover have "IndexMap p' = IndexMap p" unfolding p' by simp
  ultimately have "proc_ok env p'" using assms(1) by (simp add: proc_ok_def)
  then show ?thesis unfolding p' by simp
qed

lemma writeOutput_keeps:
  assumes "writeOutput env body p = (b, p')"
  shows "IndexMap p' = IndexMap p \<and> DataMap p' = DataMap p \<and> Index p' = Index p
    \<and> same_db (files p) (files p')"
  using assms by (auto simp: writeOutput_def same_db_def split: prod.splits bool.splits)

lemma same_db_refl: "same_db d d"
  by (simp add: same_db_def)

lemma proc_ok_URL: "proc_ok env (p\<lparr>URL := u\<rparr>) = proc_ok env p"
  by (simp add: proc_ok_def)

lemma proc_ok_Index: "proc_ok env (p\<lparr>Index := u\<rparr>) = proc_ok env p"
  by (simp add: proc_ok_def)

lemma proc_ok_cong:
  "IndexMap p' = IndexMap p \<Longrightarrow> DataMap p' = DataMap p \<Longrightarrow> proc_ok env p' = proc_ok env p"
  by (simp add: proc_ok_def)

lemma round_ok_body:
  assumes ok: "proc_ok env p" and ix: "Index p = i" and i: "i \<noteq> 404"
    and st: "status_ok env i"
  shows "round_keeps env i p
    (let p2 = mapTerms (scan_words env body) (p\<lparr>URL := u\<rparr>) in
       case mapData env body (Index p2) p2 of
         Inl a \<Rightarrow> Inl (Aborted a, p2)
       | Inr p3 \<Rightarrow>
           (case writeOutput env body p3 of
              (True, p4) \<Rightarrow> Inl (Err WriteFailed, p4)
            | (False, p4) \<Rightarrow> Inr (p4\<lparr>Index := go_inc (Index p4)\<rparr>)))"
proof -
  let ?p2 = "mapTerms (scan_words env body) (p\<lparr>URL := u\<rparr>)"
  have ok2: "proc_ok env ?p2" using proc_ok_mapTerms [OF ok] ix i st by simp
  have f2: "files ?p2 = files p" and i2: "Index ?p2 = i" using ix by (simp_all add: mapTerms_def)
  show ?thesis
  proof (cases "mapData env body i ?p2")
    case (Inl a)
    then show ?thesis using ok2 f2 i2 by (simp add: round_keeps_def Let_def same_db_refl)
  next
    case (Inr p3)
    from proc_ok_mapData [OF ok2 i st Inr] have
      ok3: "proc_ok env p3" and f3: "files p3 = files p" and i3: "Index p3 = i"
      using f2 i2 by simp_all
    obtain b p4 where w: "writeOutput env body p3 = (b, p4)" by (cases "writeOutput env body p3")
    from writeOutput_keeps [OF w] have
      k: "IndexMap p4 = IndexMap p3" "DataMap p4 = DataMap p3" "Index p4 = Index p3"
        "same_db (files p3) (files p4)" by simp_all
    have ok4: "proc_ok env p4" using proc_ok_cong [OF k(1,2), of env] ok3 by simp
    have db: "same_db (files p) (files p4)" using k(4) f3 by simp
    show ?thesis
      using Inr w ok4 db k(3) i3 i2
      by (cases b) (simp_all add: round_keeps_def Let_def proc_ok_Index)
  qed
qed

lemma round_ok:
  assumes ok: "proc_ok env p" and ix: "Index p = i"
  shows "round_keeps env i p (GetInfo_round env i p)"
proof (cases "i = 404")
  case True
  then show ?thesis
    using ok by (simp add: GetInfo_round_def round_keeps_def proc_ok_Index same_db_refl ix)
next
  case False
  let ?p1 = "p\<lparr>URL := XKCDURL @ Itoa i\<rparr>"
  have leave: "round_keeps env i p (Inl (r, ?p1))" for r
    using ok by (simp add: round_keeps_def proc_ok_URL same_db_refl)
  obtain r e where g: "http_Get env i = (r, e)" by (cases "http_Get env i")
  show ?thesis
  proof (cases r)
    case None
    then show ?thesis using False g leave by (simp add: GetInfo_round_def Let_def)
  next
    case (Some resp)
    show ?thesis
    proof (cases e)
      case True
      then show ?thesis using False g Some leave by (simp add: GetInfo_round_def Let_def)
    next
      case e: False
      show ?thesis
      proof (cases "StatusCode resp = 200")
        case True
        then have st: "status_ok env i" using g Some e by (simp add: status_ok_def)
        from round_ok_body [OF ok ix False st, of "Body resp" "XKCDURL @ Itoa i"]
        show ?thesis using False g Some e True by (simp add: GetInfo_round_def Let_def)
      next
        case ns: False
        then show ?thesis using False g Some e leave by (simp add: GetInfo_round_def Let_def)
      qed
    qed
  qed
qed

lemma loop_measure_dec: "0 < i \<Longrightarrow> loop_measure (go_inc i) < loop_measure i"
  by (simp add: loop_measure_def go_inc_def)

lemma loop_keeps:
  "proc_ok env p \<Longrightarrow> Index p = i \<Longrightarrow> GetInfo_loop env i p = (r, p') \<Longrightarrow>
   proc_ok env p' \<and> same_db (files p) (files p')"
proof (induction "loop_measure i" arbitrary: i p rule: less_induct)
  case less
  show ?case
  proof (cases "0 < i")
    case False
    with less.prems(3) have "p' = p" by (simp add: loop_stop)
    with less.prems(1) show ?thesis by (simp add: same_db_refl)
  next
    case True
    from round_ok [OF less.prems(1,2)] have rk: "round_keeps env i p (GetInfo_round env i p)" .
    show ?thesis
    proof (cases "GetInfo_round env i p")
      case (Inl res)
      with less.prems(3) True have "res = (r, p')" by (subst (asm) loop_unfold) simp
      with rk Inl show ?thesis by (simp add: round_keeps_def)
    next
      case (Inr q)
      with less.prems(3) True have l: "GetInfo_loop env (go_inc i) q = (r, p')"
        by (subst (asm) loop_unfold) simp
      from rk Inr have q: "proc_ok env q" "same_db (files p) (files q)" "Index q = go_inc i"
        by (simp_all add: round_keeps_def)
      from less.hyps [OF loop_measure_dec [OF True] q(1,3) l] q(2) show ?thesis
        by (simp add: same_db_def)
    qed
  qed
qed

lemma entry_free_of_404_append:
  assumes "case Bstois bs of Inl a \<Rightarrow> False | Inr l \<Rightarrow> 404 \<notin> set l"
    and "\<forall>j \<in> set v. j mod 65536 \<noteq> 404"
  shows "entry_free_of_404 (k, bs @ Istobs v)"
proof -
  from assms(1) obtain old where old: "Bstois bs = Inr old" "404 \<notin> set old"
    by (cases "Bstois bs") auto
  have "404 \<notin> set (map (\<lambda>i. i mod 65536) v)" using assms(2) by auto
  with old Bstois_append_Istobs [OF old(1), of v] show ?thesis
    by (simp add: entry_free_of_404_def)
qed

lemma Get_free_of_404:
  assumes "list_all entry_free_of_404 b"
  shows "case Bstois (Get b k) of Inl a \<Rightarrow> False | Inr l \<Rightarrow> 404 \<notin> set l"
proof (cases "map_of b k")
  case None
  then show ?thesis by (simp add: Get_def Bstois_Nil)
next
  case (Some bs)
  then have "(k, bs) \<in> set b" by (rule map_of_SomeD)
  with assms have "entry_free_of_404 (k, bs)" by (simp add: list_all_iff)
  with Some show ?thesis by (simp add: Get_def entry_free_of_404_def)
qed

lemma storeIndexMap_tx_free:
  "list_all entry_free_of_404 b \<Longrightarrow> \<forall>e \<in> set m. \<forall>j \<in> set (snd e). j mod 65536 \<noteq> 404 \<Longrightarrow>
   list_all entry_free_of_404 (storeIndexMap_tx m b)"
proof (induction m arbitrary: b)
  case Nil
  then show ?case by simp
next
  case (Cons e m)
  obtain k v where e: "e = (k, v)" by (cases e)
  let ?b = "AList.update k (Get b k @ Istobs v) b"
  from Cons.prems(2) e have v: "\<forall>j \<in> set v. j mod 65536 \<noteq> 404" by simp
  have new: "entry_free_of_404 (k, Get b k @ Istobs v)"
    by (rule entry_free_of_404_append [OF Get_free_of_404 [OF Cons.prems(1)] v])
  have "list_all entry_free_of_404 ?b"
    unfolding list_all_iff
  proof
    fix x assume "x \<in> set ?b"
    from set_update_cases [OF this] show "entry_free_of_404 x"
      using new Cons.prems(1) by (auto simp: list_all_iff)
  qed
  moreover from Cons.prems(2) have "\<forall>e \<in> set m. \<forall>j \<in> set (snd e). j mod 65536 \<noteq> 404" by simp
  ultimately show ?case using Cons.IH e by simp
qed

lemma Itob_eq_mod: "Itob j = Itob k \<Longrightarrow> j mod 65536 = k mod 65536"
  using Btoi_Itob_mod [of j] Btoi_Itob_mod [of k] by simp

lemma storeIndexMap_free:
  assumes "free_of_404 d" and "\<forall>e \<in> set m. \<forall>j \<in> set (snd e). j mod 65536 \<noteq> 404"
  shows "free_of_404 (snd (storeIndexMap fault m d))"
proof (cases fault)
  case NoFault
  have "list_all entry_free_of_404 (storeIndexMap_tx m (CreateBucketIfNotExists (main d)))"
    using storeIndexMap_tx_free [OF _ assms(2)] assms(1) by (simp add: free_of_404_def)
  with NoFault assms(1) show ?thesis
    by (simp add: storeIndexMap_def free_of_404_def CreateBucketIfNotExists_Some)
next
  case OpenFault
  with assms(1) show ?thesis by (simp add: storeIndexMap_def)
next
  case UpdateFault
  with assms(1) show ?thesis by (simp add: storeIndexMap_def)
qed

lemma storeMapData_free:
  assumes "free_of_404 d" and "\<forall>j \<in> fst ` set m. j mod 65536 \<noteq> 404"
  shows "free_of_404 (snd (storeMapData fault conv m d))"
proof (cases fault)
  case NoFault
  show ?thesis
  proof (cases "storeMapData_tx conv m (CreateBucketIfNotExists (data d))")
    case None
    with NoFault assms(1) show ?thesis by (simp add: storeMapData_def)
  next
    case (Some b')
    have "Itob 404 \<notin> Itob ` fst ` set m"
    proof
      assume "Itob 404 \<in> Itob ` fst ` set m"
      then obtain j where j: "j \<in> fst ` set m" "Itob 404 = Itob j" by auto
      from Itob_eq_mod [OF j(2)] have "j mod 65536 = 404" by simp
      with assms(2) j(1) show False by blast
    qed
    with storeMapData_tx_keys [OF Some] assms(1) have "Itob 404 \<notin> fst ` set b'"
      by (simp add: free_of_404_def)
    with NoFault Some assms(1) show ?thesis
      by (simp add: storeMapData_def free_of_404_def CreateBucketIfNotExists_Some)
  qed
next
  case OpenFault
  with assms(1) show ?thesis by (simp add: storeMapData_def)
next
  case UpdateFault
  with assms(1) show ?thesis by (simp add: storeMapData_def)
qed

lemma logIndexVar_free: "free_of_404 (snd (logIndexVar fault i d)) = free_of_404 d"
  by (cases fault) (simp_all add: logIndexVar_def free_of_404_def)

lemma flush_files:
  "files (snd (flush env p)) = snd (storeIndexMap (index_fault env) (IndexMap p) (files p))
   \<or> files (snd (flush env p)) =
       snd (storeMapData (data_fault env) (proto_Marshal env) (DataMap p)
         (snd (storeIndexMap (index_fault env) (IndexMap p) (files p))))
   \<or> files (snd (flush env p)) =
       snd (logIndexVar (log_fault env) (Index p)
         (snd (storeMapData (data_fault env) (proto_Marshal env) (DataMap p)
           (snd (storeIndexMap (index_fault env) (IndexMap p) (files p))))))"
  by (simp add: flush_def split: prod.splits outcome.splits)

lemma flush_keeps:
  assumes "proc_ok env p" and "no_alias_404 env" and "free_of_404 (files p)"
  shows "free_of_404 (files (snd (flush env p)))"
proof -
  have nz: "j mod 65536 \<noteq> 404" if "j \<noteq> 404" "status_ok env j" for j
    using assms(2) that by (auto simp: no_alias_404_def)
  have ids: "\<forall>e \<in> set (IndexMap p). \<forall>j \<in> set (snd e). j mod 65536 \<noteq> 404"
    using assms(1) nz by (simp add: proc_ok_def)
  have keys: "\<forall>j \<in> fst ` set (DataMap p). j mod 65536 \<noteq> 404"
    using assms(1) nz by (simp add: proc_ok_def)
  note a = storeIndexMap_free [OF assms(3) ids, of "index_fault env"]
  note b = storeMapData_free [OF a keys, of "data_fault env" "proto_Marshal env"]
  have c: "free_of_404 (snd (logIndexVar (log_fault env) (Index p)
         (snd (storeMapData (data_fault env) (proto_Marshal env) (DataMap p)
           (snd (storeIndexMap (index_fault env) (IndexMap p) (files p)))))))"
    using b by (simp add: logIndexVar_free)
  from flush_files [of env p] a b c show ?thesis by auto
qed

lemma free_of_404_same_db: "same_db d d' \<Longrightarrow> free_of_404 d' = free_of_404 d"
  by (simp add: same_db_def free_of_404_def)

lemma updateIndex_keeps:
  assumes "no_alias_404 env" and "free_of_404 d"
  shows "free_of_404 (snd (updateIndex env d))"
proof (cases "GetIndex d")
  case (Inl a)
  with assms(2) show ?thesis by (simp add: updateIndex_def)
next
  case (Inr c)
  let ?p = "\<lparr>Index = c, URL = [], IndexMap = [], DataMap = [], files = d\<rparr>"
  have ok: "proc_ok env ?p" by (simp add: proc_ok_def)
  have u: "snd (updateIndex env d) = files (snd (GetInfo env ?p))"
    using Inr by (simp add: updateIndex_def split: prod.splits)
  show ?thesis
  proof (cases "OpenFile_err env")
    case True
    with u assms(2) show ?thesis by (simp add: GetInfo_def)
  next
    case False
    obtain r p' where l: "GetInfo_loop env c ?p = (r, p')" by (cases "GetInfo_loop env c ?p")
    from loop_keeps [OF ok _ l] have ok': "proc_ok env p'" and db: "same_db d (files p')" by simp_all
    from db assms(2) have fr: "free_of_404 (files p')" by (simp add: free_of_404_same_db)
    show ?thesis
    proof (cases "r = Nil")
      case True
      with False l u have "snd (updateIndex env d) = files (snd (flush env p'))"
        by (simp add: GetInfo_def)
      with flush_keeps [OF ok' assms(1) fr] show ?thesis by simp
    next
      case ne: False
      with False l u have "snd (updateIndex env d) = files p'"
        by (cases r) (simp_all add: GetInfo_def)
      with fr show ?thesis by simp
    qed
  qed
qed

lemma free_of_404_disk0: "free_of_404 disk0"
  by (simp add: free_of_404_def disk0_def CreateBucketIfNotExists_def)

lemma reachable_free_of_404: "reachable no_alias_404 d \<Longrightarrow> free_of_404 d"
  by (induction rule: reachable.induct) (simp_all add: free_of_404_disk0 updateIndex_keeps)

lemma free_of_404_get_postings:
  assumes "free_of_404 d" and "get_postings d t = Inr l"
  shows "404 \<notin> set l"
proof -
  from assms(2) obtain b where b: "main d = Some b" and g: "Bstois (Get b t) = Inr l"
    by (cases "main d") (auto simp: get_postings_def bucket_Get_def Get_def split: option.splits)
  from assms(1) b have "list_all entry_free_of_404 b"
    by (simp add: free_of_404_def CreateBucketIfNotExists_Some)
  from Get_free_of_404 [OF this, of t] g show ?thesis by simp
qed

text \<open>
  Claim C8 (amended). In every state reached by runs against sources that serve no ID,
  other than 404, whose 16-bit truncation is 404, no postings list read from the store
  holds 404 and no record is stored under the key of 404. The round of the loop at 404
  fetches nothing, changes nothing but \<open>Index\<close>, and goes on at 405.
\<close>

theorem C8_reserved_id_skipped:
  assumes "reachable no_alias_404 d"
  shows "(\<forall>t l. get_postings d t = Inr l \<longrightarrow> 404 \<notin> set l)
    \<and> Itob 404 \<notin> fst ` set (CreateBucketIfNotExists (data d))
    \<and> GetInfo_loop env 404 p = GetInfo_loop env 405 (p\<lparr>Index := go_inc (Index p)\<rparr>)"
proof -
  from reachable_free_of_404 [OF assms] have f: "free_of_404 d" .
  then have "Itob 404 \<notin> fst ` set (CreateBucketIfNotExists (data d))"
    by (simp add: free_of_404_def)
  with f free_of_404_get_postings loop_404 [of env p] show ?thesis by blast
qed

lemma run_get_one:
  "updateIndex (env_of get_one) disk0
   = (Nil, \<lparr>comic_log = [(1, Some doc0)], main = Some [(''a'', Istobs [1])],
        data = Some [(Itob 1, [])], log_db = Logged (Itob 2)\<rparr>)"
proof -
  have e: "env_of get_one = env_of get_one\<lparr>data_fault := NoFault\<rparr>"
    by (simp add: env_of_def)
  have "GetInfo_loop (env_of get_one) 1
      \<lparr>Index = 1, URL = [], IndexMap = [], DataMap = [], files = disk0\<rparr>
    = (Nil, \<lparr>Index = 2, URL = XKCDURL @ Itoa 2, IndexMap = [(''a'', [1])],
        DataMap = [(1, doc0\<lparr>Link := XKCDURL @ Itoa 1\<rparr>)],
        files = disk0\<lparr>comic_log := comic_log disk0 @ [(1, Some doc0)]\<rparr>\<rparr>)"
    using loop_get_one [of NoFault disk0] e by simp
  then show ?thesis
    by (simp add: updateIndex_def GetIndex_def GetInfo_def disk0_def)
      (simp add: env_of_def flush_def storeIndexMap_def storeMapData_def logIndexVar_def
        CreateBucketIfNotExists_def Get_def Istobs_Nil)
qed

lemma no_alias_404_get_one: "no_alias_404 (env_of get_one)"
  by (auto simp: no_alias_404_def status_ok_def env_of_def get_one_def)

theorem C8_reserved_id_skipped_witness:
  "reachable (no_alias_404 :: string list env \<Rightarrow> bool)
     (snd (updateIndex (env_of get_one) disk0))
   \<and> get_postings (snd (updateIndex (env_of get_one) disk0)) ''a'' = Inr [1]
   \<and> Itob 404 \<notin> fst ` set (CreateBucketIfNotExists (data (snd (updateIndex (env_of get_one) disk0))))"
proof -
  have r: "reachable (no_alias_404 :: string list env \<Rightarrow> bool)
      (snd (updateIndex (env_of get_one) disk0))"
    by (rule reachable.run [OF reachable.start]) (rule no_alias_404_get_one)
  have g: "get_postings (snd (updateIndex (env_of get_one) disk0)) ''a'' = Inr [1]"
    by (simp add: run_get_one get_postings_def bucket_Get_def Bstois_Istobs_mod)
  from C8_reserved_id_skipped [OF r] r g show ?thesis by blast
qed

theorem C8_id_65940_counterexample:
  "reachable any_source (snd (updateIndex (env_of get_many) disk0))
   \<and> Itob 404 \<in> fst ` set (CreateBucketIfNotExists (data (snd (updateIndex (env_of get_many) disk0))))"
proof -
  have r: "reachable any_source (snd (updateIndex (env_of get_many) disk0))"
    by (rule reachable.run [where Q = any_source, OF reachable.start]) (simp add: any_source_def)
  have g: "GetIndex disk0 = Inr 1" by (simp add: GetIndex_def disk0_def)
  have sv: "\<forall>j. 1 \<le> j \<and> j < 65941 \<and> j \<noteq> 404 \<longrightarrow> served (env_of get_many) j"
    by (simp add: served_def env_of_def get_many_def)
  have fr: "frontier (env_of get_many) 65941"
    by (simp add: frontier_def env_of_def get_many_def)
  from run_to_frontier [OF g _ _ _ sv fr no_faults_env_of] obtain d' where
    u: "updateIndex (env_of get_many) disk0 = (Nil, d')"
    and k: "fst ` set (CreateBucketIfNotExists (data d')) =
        fst ` set (CreateBucketIfNotExists (data disk0)) \<union> Itob ` {j. 1 \<le> j \<and> j < 65941 \<and> j \<noteq> 404}"
    by auto
  have "Itob 65940 \<in> Itob ` {j. 1 \<le> j \<and> j < 65941 \<and> j \<noteq> 404}" by (rule imageI) simp
  moreover have "Itob 65940 = Itob 404" by (simp add: Itob_def uint16_def PutUint16_def)
  ultimately have "Itob 404 \<in> fst ` set (CreateBucketIfNotExists (data d'))"
    using k by simp
  with r u show ?thesis by simp
qed

end
